theory Spec2Isabelle
  imports Main "HOL-Library.Word" "HOL-Library.Stream" "HOL-Library.Numeral_Type"
begin

section \<open>Trusted-dealer key generation with Taproot-tweaked shares\<close>

text \<open>
  A shallow embedding of \<^verbatim>\<open>src/python/trusted_dealer.py\<close>. The module is written
  against the vendored curve library (\<^verbatim>\<open>GE\<close>, \<^verbatim>\<open>G\<close>, \<^verbatim>\<open>Scalar\<close>), the tagged hash and
  the system random source. None of the three is part of the module, so each one is an
  explicit parameter of the model: the curve library and the hash are the fields of the
  record \<open>curve\<close>, the random source is a stream of the values that successive calls of
  \<^verbatim>\<open>secrets.randbits(256)\<close> return.
\<close>

subsection \<open>Errors\<close>

text \<open>
  Every \<^verbatim>\<open>raise\<close> of the module raises \<^verbatim>\<open>ValueError\<close> with a message of its own. The
  constructors below name the raise sites by the kind of failure:
  \<^item> \<open>InvalidParameters\<close>: "n must be >= 1", "t must satisfy 1 <= t <= n";
  \<^item> \<open>InvalidCommitment\<close>: "Invalid polynomial: A_0 is infinity", "Empty commitments",
    "Invalid commitment: A_0 is infinity";
  \<^item> \<open>InvalidGroupKey\<close>: "Tweaked group public key is infinity";
  \<^item> \<open>ZeroShare\<close>: "Secret share for id=... is 0; aborting.";
  \<^item> \<open>InconsistentInput\<close>: "target_id must be in ids", "duplicate ids not allowed",
    "ids and pubshares length mismatch", "need at least one share",
    "Interpolation yielded infinity";
  \<^item> \<open>ZeroDivisor\<close>: "Cannot invert zero scalar";
  \<^item> \<open>NotInvertible\<close>: the \<^verbatim>\<open>ValueError\<close> of the builtin \<^verbatim>\<open>pow(x, -1, m)\<close> when \<open>x\<close> has
    no inverse modulo \<open>m\<close>;
  \<^item> \<open>AssertionError\<close>: a failed \<^verbatim>\<open>assert\<close>, of the module or of the curve library;
  \<^item> \<open>IndexError\<close>: reading index 0 of an empty list.
\<close>

datatype error =
    InvalidParameters
  | InvalidCommitment
  | InvalidGroupKey
  | ZeroShare
  | InconsistentInput
  | ZeroDivisor
  | NotInvertible
  | AssertionError
  | IndexError

subsection \<open>The curve library, the hash and the scalars\<close>

type_synonym byte = "8 word"

text \<open>
  The operations of the vendored library that the module calls. \<open>ORDER\<close> is
  \<^verbatim>\<open>Scalar.SIZE\<close>, \<open>GE_inf\<close> is \<^verbatim>\<open>GE()\<close> (the point at infinity), \<open>GEN\<close> is \<^verbatim>\<open>G\<close>,
  \<open>ge_add\<close> is \<^verbatim>\<open>+\<close> on points and \<open>ge_mul a P\<close> is \<^verbatim>\<open>a * P\<close> for an integer or a scalar
  \<open>a\<close>. \<open>to_bytes_xonly\<close> and \<open>has_even_y\<close> may fail (\<open>None\<close>), as a library call may.
\<close>

record 'g curve =
  ORDER :: int
  GE_inf :: 'g
  GEN :: 'g
  ge_add :: "'g \<Rightarrow> 'g \<Rightarrow> 'g"
  ge_mul :: "int \<Rightarrow> 'g \<Rightarrow> 'g"
  to_bytes_xonly :: "'g \<Rightarrow> byte list option"
  has_even_y :: "'g \<Rightarrow> bool option"
  tagged_hash :: "string \<Rightarrow> byte list \<Rightarrow> byte list"

text \<open>\<^verbatim>\<open>P.infinity\<close>: the only point with the flag set is \<^verbatim>\<open>GE()\<close>.\<close>

definition infinity :: "'g curve \<Rightarrow> 'g \<Rightarrow> bool" where
  "infinity C P = (P = GE_inf C)"

text \<open>
  A \<^verbatim>\<open>Scalar\<close> is its representative in \<open>{0..<ORDER}\<close>; \<^verbatim>\<open>Scalar(v)\<close> and
  \<^verbatim>\<open>Scalar.from_int_wrapping(v)\<close> reduce \<open>v\<close> modulo the order, and the arithmetic of
  scalars is written out below with its \<open>mod\<close>.
\<close>

definition Scalar :: "'g curve \<Rightarrow> int \<Rightarrow> int" where
  "Scalar C v = v mod ORDER C"

definition int_from_bytes :: "byte list \<Rightarrow> int" where
  "int_from_bytes bs = foldl (\<lambda>acc b. acc * 256 + uint b) 0 bs"

definition from_bytes_wrapping :: "'g curve \<Rightarrow> byte list \<Rightarrow> int" where
  "from_bytes_wrapping C bs = int_from_bytes bs mod ORDER C"

subsection \<open>The builtin modular inverse\<close>

text \<open>
  \<^verbatim>\<open>pow(x, -1, m)\<close> for \<open>m > 0\<close>: the inverse of \<open>x\<close> modulo \<open>m\<close> in \<open>{0..<m}\<close>, by the
  extended Euclidean algorithm, or a \<^verbatim>\<open>ValueError\<close> when \<open>x\<close> is not invertible.
\<close>

function egcd :: "int \<Rightarrow> int \<Rightarrow> int \<times> int \<times> int" where
  "egcd a b =
     (if b \<le> 0 then (a, 1, 0)
      else (case egcd b (a mod b) of (g, s, t) \<Rightarrow> (g, t, s - (a div b) * t)))"
  by pat_completeness auto
termination
  by (relation "measure (\<lambda>(a, b). nat b)") (auto simp: pos_mod_bound)

definition pow_inv :: "int \<Rightarrow> int \<Rightarrow> int option" where
  "pow_inv x m = (case egcd x m of (g, s, t) \<Rightarrow> if g = 1 then Some (s mod m) else None)"

subsection \<open>Sampling\<close>

text \<open>
  \<^verbatim>\<open>_random_scalar_nonzero\<close>: \<^verbatim>\<open>while True\<close> until a sample is not zero. The loop has no
  bound; not returning is the value \<open>None\<close>.
\<close>

partial_function (option) random_scalar_nonzero ::
  "'g curve \<Rightarrow> int stream \<Rightarrow> (int \<times> int stream) option" where
  "random_scalar_nonzero C rs =
     (let s = shd rs mod ORDER C
      in if s \<noteq> 0 then Some (s, stl rs) else random_scalar_nonzero C (stl rs))"

definition random_scalar :: "'g curve \<Rightarrow> int stream \<Rightarrow> int \<times> int stream" where
  "random_scalar C rs = (shd rs mod ORDER C, stl rs)"

subsection \<open>Polynomial evaluation\<close>

fun eval_point_poly_loop :: "'g curve \<Rightarrow> int \<Rightarrow> 'g list \<Rightarrow> 'g \<times> int \<Rightarrow> 'g" where
  "eval_point_poly_loop C x [] (result, power') = result"
| "eval_point_poly_loop C x (A # As) (result, power') =
     eval_point_poly_loop C x As
       (ge_add C result (ge_mul C power' A), (power' * x) mod ORDER C)"

definition eval_point_poly :: "'g curve \<Rightarrow> 'g list \<Rightarrow> int \<Rightarrow> 'g" where
  "eval_point_poly C commitments x =
     eval_point_poly_loop C x commitments (GE_inf C, Scalar C 1)"

fun eval_scalar_poly_loop :: "'g curve \<Rightarrow> int \<Rightarrow> int list \<Rightarrow> int \<times> int \<Rightarrow> int" where
  "eval_scalar_poly_loop C x [] (result, power') = result"
| "eval_scalar_poly_loop C x (c # cs) (result, power') =
     eval_scalar_poly_loop C x cs
       ((result + (c * power') mod ORDER C) mod ORDER C, (power' * x) mod ORDER C)"

definition eval_scalar_poly :: "'g curve \<Rightarrow> int list \<Rightarrow> int \<Rightarrow> int" where
  "eval_scalar_poly C coeffs x =
     eval_scalar_poly_loop C x coeffs (Scalar C 0, Scalar C 1)"

subsection \<open>The Taproot tweak\<close>

text \<open>
  \<^verbatim>\<open>_taproot_tweak_and_sign\<close> has no check of its own: it fails where the library's
  \<^verbatim>\<open>to_bytes_xonly\<close> or \<^verbatim>\<open>has_even_y\<close> fails, in the order the source calls them.
\<close>

definition taproot_tweak_and_sign :: "'g curve \<Rightarrow> 'g \<Rightarrow> error + (int \<times> int)" where
  "taproot_tweak_and_sign C P =
     (case to_bytes_xonly C P of
        None \<Rightarrow> Inl AssertionError
      | Some xonly \<Rightarrow>
          let tweak_bytes = tagged_hash C ''TapTweak'' (xonly @ replicate 32 0);
              tweak = from_bytes_wrapping C tweak_bytes
          in (case has_even_y C P of
                None \<Rightarrow> Inl AssertionError
              | Some even_y \<Rightarrow> Inr (tweak, if even_y then 1 else - 1)))"

subsection \<open>The modular inverse of a scalar\<close>

definition modinv_scalar :: "'g curve \<Rightarrow> int \<Rightarrow> error + int" where
  "modinv_scalar C x =
     (if x = 0 then Inl ZeroDivisor
      else (case pow_inv x (ORDER C) of
              None \<Rightarrow> Inl NotInvertible
            | Some y \<Rightarrow> Inr (Scalar C y)))"

subsection \<open>Key generation\<close>

text \<open>\<^verbatim>\<open>for _ in range(1, t): coeffs.append(_random_scalar())\<close>, with \<open>k\<close> iterations left.\<close>

fun sample_coeffs :: "'g curve \<Rightarrow> nat \<Rightarrow> int list \<Rightarrow> int stream \<Rightarrow> int list \<times> int stream" where
  "sample_coeffs C 0 coeffs rs = (coeffs, rs)"
| "sample_coeffs C (Suc k) coeffs rs =
     (case random_scalar C rs of (a, rs') \<Rightarrow> sample_coeffs C k (coeffs @ [a]) rs')"

text \<open>
  The loop over the participant ids \<^verbatim>\<open>for i in range(1, n + 1)\<close>, on the ids still to
  visit and the two lists built so far.
\<close>

fun share_loop ::
  "'g curve \<Rightarrow> 'g list \<Rightarrow> int list \<Rightarrow> int \<Rightarrow> int \<Rightarrow> int list \<Rightarrow> int list \<times> 'g list
     \<Rightarrow> error + (int list \<times> 'g list)" where
  "share_loop C vss_commitment coeffs tweak g [] (secret_shares, public_shares) =
     Inr (secret_shares, public_shares)"
| "share_loop C vss_commitment coeffs tweak g (i # ids) (secret_shares, public_shares) =
     (let idx = Scalar C i;
          E = eval_point_poly C vss_commitment idx;
          f_id = eval_scalar_poly C coeffs idx;
          d_i = ((g * f_id) mod ORDER C + tweak) mod ORDER C
      in if d_i = 0 then Inl ZeroShare
         else
           let P_i_Q = ge_add C (ge_mul C g E) (ge_mul C tweak (GEN C))
           in if P_i_Q \<noteq> ge_mul C d_i (GEN C) then Inl AssertionError
              else share_loop C vss_commitment coeffs tweak g ids
                     (secret_shares @ [d_i], public_shares @ [P_i_Q]))"

text \<open>
  The result carries the random source as the run left it; \<open>None\<close> is a run that never
  returns (the sampling loop of the first coefficient).
\<close>

definition trusted_dealer_key_generation ::
  "'g curve \<Rightarrow> int \<Rightarrow> int \<Rightarrow> int stream
     \<Rightarrow> ((error + ('g list \<times> int list \<times> 'g list)) \<times> int stream) option" where
  "trusted_dealer_key_generation C t n rs =
     (if n < 1 then Some (Inl InvalidParameters, rs)
      else if \<not> (1 \<le> t \<and> t \<le> n) then Some (Inl InvalidParameters, rs)
      else
        (case random_scalar_nonzero C rs of
           None \<Rightarrow> None
         | Some (a0, rs1) \<Rightarrow>
             (case sample_coeffs C (nat (t - 1)) [a0] rs1 of
                (coeffs, rs2) \<Rightarrow>
                  let vss_commitment = map (\<lambda>a. ge_mul C a (GEN C)) coeffs
                  in (case vss_commitment of
                        [] \<Rightarrow> Some (Inl IndexError, rs2)
                      | P # _ \<Rightarrow>
                          if infinity C P then Some (Inl InvalidCommitment, rs2)
                          else
                            (case taproot_tweak_and_sign C P of
                               Inl e \<Rightarrow> Some (Inl e, rs2)
                             | Inr (tweak, g) \<Rightarrow>
                                 let Q = ge_add C (ge_mul C g P) (ge_mul C tweak (GEN C))
                                 in if infinity C Q then Some (Inl InvalidGroupKey, rs2)
                                    else
                                      (case share_loop C vss_commitment coeffs tweak g
                                              [1..n] ([], []) of
                                         Inl e \<Rightarrow> Some (Inl e, rs2)
                                       | Inr (secret_shares, public_shares) \<Rightarrow>
                                           Some (Inr (vss_commitment, secret_shares,
                                                      public_shares), rs2)))))))"

subsection \<open>Share verification\<close>

definition verify_share :: "'g curve \<Rightarrow> int \<Rightarrow> int \<Rightarrow> 'g list \<Rightarrow> error + bool" where
  "verify_share C participant_id sec_share vss_commitment =
     (if sec_share = 0 then Inr False
      else if participant_id \<le> 0 then Inr False
      else
        (case vss_commitment of
           [] \<Rightarrow> Inr False
         | P # _ \<Rightarrow>
             if infinity C P then Inr False
             else
               (case taproot_tweak_and_sign C P of
                  Inl e \<Rightarrow> Inl e
                | Inr (tweak, g) \<Rightarrow>
                    let idx = Scalar C participant_id;
                        E = eval_point_poly C vss_commitment idx;
                        expected_pub = ge_add C (ge_mul C g E) (ge_mul C tweak (GEN C))
                    in Inr (expected_pub = ge_mul C sec_share (GEN C)))))"

subsection \<open>The group key from the commitments\<close>

definition group_pubkey_from_commitment :: "'g curve \<Rightarrow> 'g list \<Rightarrow> error + 'g" where
  "group_pubkey_from_commitment C vss_commitment =
     (case vss_commitment of
        [] \<Rightarrow> Inl InvalidCommitment
      | P # _ \<Rightarrow>
          if infinity C P then Inl InvalidCommitment
          else
            (case taproot_tweak_and_sign C P of
               Inl e \<Rightarrow> Inl e
             | Inr (tweak, g) \<Rightarrow>
                 let Q = ge_add C (ge_mul C g P) (ge_mul C tweak (GEN C))
                 in if infinity C Q then Inl InvalidGroupKey else Inr Q))"

subsection \<open>Lagrange coefficients and reconstruction\<close>

fun lagrange_loop :: "'g curve \<Rightarrow> int \<Rightarrow> int \<Rightarrow> int list \<Rightarrow> int \<times> int \<Rightarrow> int \<times> int" where
  "lagrange_loop C target_id x [] (num, denom) = (num, denom)"
| "lagrange_loop C target_id x (j # ids) (num, denom) =
     (if j = target_id then lagrange_loop C target_id x ids (num, denom)
      else
        let j_s = Scalar C j
        in lagrange_loop C target_id x ids
             ((num * j_s) mod ORDER C, (denom * ((j_s - x) mod ORDER C)) mod ORDER C))"

text \<open>\<^verbatim>\<open>len(set(ids))\<close> is the length of the list without its repetitions.\<close>

definition lagrange_at_zero :: "'g curve \<Rightarrow> int list \<Rightarrow> int \<Rightarrow> error + int" where
  "lagrange_at_zero C ids target_id =
     (if target_id \<notin> set ids then Inl InconsistentInput
      else if length (remdups ids) \<noteq> length ids then Inl InconsistentInput
      else
        (case lagrange_loop C target_id (Scalar C target_id) ids (Scalar C 1, Scalar C 1) of
           (num, denom) \<Rightarrow>
             (case modinv_scalar C denom of
                Inl e \<Rightarrow> Inl e
              | Inr denom_inv \<Rightarrow> Inr ((num * denom_inv) mod ORDER C))))"

text \<open>
  \<^verbatim>\<open>for id_i, P_i in zip(ids, pubshares)\<close>: the first argument is the whole list of ids,
  which every call of \<^verbatim>\<open>lagrange_at_zero\<close> reads; the second is the pairs still to visit.
\<close>

fun interpolate_loop :: "'g curve \<Rightarrow> int list \<Rightarrow> (int \<times> 'g) list \<Rightarrow> 'g \<Rightarrow> error + 'g" where
  "interpolate_loop C ids [] Q = Inr Q"
| "interpolate_loop C ids ((id_i, P_i) # rest) Q =
     (case lagrange_at_zero C ids id_i of
        Inl e \<Rightarrow> Inl e
      | Inr lam_i \<Rightarrow> interpolate_loop C ids rest (ge_add C Q (ge_mul C lam_i P_i)))"

definition group_pub_from_tweaked_pubshares :: "'g curve \<Rightarrow> int list \<Rightarrow> 'g list \<Rightarrow> error + 'g" where
  "group_pub_from_tweaked_pubshares C ids pubshares =
     (if length ids \<noteq> length pubshares then Inl InconsistentInput
      else if length ids = 0 then Inl InconsistentInput
      else if length (remdups ids) \<noteq> length ids then Inl InconsistentInput
      else
        (case interpolate_loop C ids (zip ids pubshares) (GE_inf C) of
           Inl e \<Rightarrow> Inl e
         | Inr Q \<Rightarrow> if infinity C Q then Inl InconsistentInput else Inr Q))"

section \<open>The contract of the curve library, and notions for the proofs\<close>

text \<open>A prime, by trial division.\<close>

definition prime_order :: "int \<Rightarrow> bool" where
  "prime_order p = (1 < p \<and> (\<forall>d\<in>{2..<p}. \<not> d dvd p))"

text \<open>
  Modelled from the spec: the vendored curve library (\<^verbatim>\<open>GE\<close>, \<^verbatim>\<open>G\<close>, \<^verbatim>\<open>Scalar\<close> of
  \<^verbatim>\<open>secp256k1lab\<close>) and the tagged hash are not among the sources. The specification
  describes them as scalars modulo the curve order \<open>n\<close> and curve points with addition,
  scalar multiplication, an identity test, an x-only encoding and a parity test, with a
  fixed generator \<open>G\<close>; the tweak of the point at infinity is said to fail. The contract
  below says as much and no more: the order is prime; \<^verbatim>\<open>GE()\<close> is neutral on the left;
  multiplication by an integer is an action of the integers (\<open>1\<cdot>P = P\<close>,
  \<open>(a + b)\<cdot>P = a\<cdot>P + b\<cdot>P\<close>, \<open>a\<cdot>(b\<cdot>P) = (a\<cdot>b)\<cdot>P\<close>); \<open>G\<close> has the order \<open>n\<close> exactly; and
  the x-only encoding and the parity are defined on every point but the point at infinity.
  Nothing is assumed of the hash.
\<close>

definition curve_ok :: "'g curve \<Rightarrow> bool" where
  "curve_ok C =
     (prime_order (ORDER C)
      \<and> (\<forall>P. ge_add C (GE_inf C) P = P)
      \<and> (\<forall>P. ge_mul C 1 P = P)
      \<and> (\<forall>a b P. ge_mul C (a + b) P = ge_add C (ge_mul C a P) (ge_mul C b P))
      \<and> (\<forall>a b P. ge_mul C a (ge_mul C b P) = ge_mul C (a * b) P)
      \<and> (\<forall>a. ge_mul C a (GEN C) = GE_inf C \<longleftrightarrow> ORDER C dvd a)
      \<and> (\<forall>P. to_bytes_xonly C P = None \<longleftrightarrow> P = GE_inf C)
      \<and> (\<forall>P. has_even_y C P = None \<longleftrightarrow> P = GE_inf C))"

text \<open>
  A small curve that meets the contract, on which the theorems are instantiated: the
  integers modulo 7 under addition with generator 1, the byte of the representative as
  x-only encoding, its parity, and a hash that returns the length of the tag and the
  first byte of the message.
\<close>

definition toy :: "7 curve" where
  "toy = \<lparr> ORDER = 7, GE_inf = 0, GEN = 1, ge_add = (+),
           ge_mul = (\<lambda>a P. of_int a * P),
           to_bytes_xonly = (\<lambda>P. if P = 0 then None else Some [word_of_int (Rep_bit1 P)]),
           has_even_y = (\<lambda>P. if P = 0 then None else Some (even (Rep_bit1 P))),
           tagged_hash = (\<lambda>tag msg. [of_nat (length tag), hd msg]) \<rparr>"

text \<open>
  The values of one iteration of the loop over the participants: the secret share
  \<open>d\<^sub>i = g\<cdot>f(i) + tweak\<close> and the point \<open>g\<cdot>E(i) + tweak\<cdot>G\<close> that the key generation stores as
  public share and that the verification compares with.
\<close>

definition share_value :: "'g curve \<Rightarrow> int list \<Rightarrow> int \<Rightarrow> int \<Rightarrow> int \<Rightarrow> int" where
  "share_value C coeffs tweak g i =
     ((g * eval_scalar_poly C coeffs (Scalar C i)) mod ORDER C + tweak) mod ORDER C"

definition expected_pub :: "'g curve \<Rightarrow> 'g list \<Rightarrow> int \<Rightarrow> int \<Rightarrow> int \<Rightarrow> 'g" where
  "expected_pub C vss tweak g i =
     ge_add C (ge_mul C g (eval_point_poly C vss (Scalar C i))) (ge_mul C tweak (GEN C))"

text \<open>The group key \<open>Q = g\<cdot>A\<^sub>0 + tweak\<cdot>G\<close> of a first commitment \<open>A\<^sub>0\<close>.\<close>

definition tweaked_key :: "'g curve \<Rightarrow> 'g \<Rightarrow> error + 'g" where
  "tweaked_key C P =
     (case taproot_tweak_and_sign C P of
        Inl e \<Rightarrow> Inl e
      | Inr (tweak, g) \<Rightarrow> Inr (ge_add C (ge_mul C g P) (ge_mul C tweak (GEN C))))"

text \<open>
  Integer polynomials as coefficient lists (lowest degree first), for the proof of the
  interpolation: evaluation, and the quotient of the division by \<open>X - a\<close>.
\<close>

fun peval :: "int list \<Rightarrow> int \<Rightarrow> int" where
  "peval [] x = 0"
| "peval (c # cs) x = c + x * peval cs x"

fun sdiv :: "int \<Rightarrow> int list \<Rightarrow> int list" where
  "sdiv a [] = []"
| "sdiv a [c] = []"
| "sdiv a (c # cs) = peval cs a # sdiv a cs"

fun padd :: "int list \<Rightarrow> int list \<Rightarrow> int list" where
  "padd [] ys = ys"
| "padd xs [] = xs"
| "padd (x # xs) (y # ys) = (x + y) # padd xs ys"

definition poly_deg_lt :: "nat \<Rightarrow> (int \<Rightarrow> int) \<Rightarrow> bool" where
  "poly_deg_lt m F = (\<exists>cs. length cs \<le> m \<and> (\<forall>x. F x = peval cs x))"

text \<open>
  The numerator and the denominator of the Lagrange coefficient at zero, as integers:
  the products of \<open>j\<close> and of \<open>j - target_id\<close> over the ids other than the target.
\<close>

definition lag_num :: "int list \<Rightarrow> int \<Rightarrow> int" where
  "lag_num ids target_id = prod_list (filter (\<lambda>j. j \<noteq> target_id) ids)"

definition lag_den :: "int list \<Rightarrow> int \<Rightarrow> int" where
  "lag_den ids target_id =
     prod_list (map (\<lambda>j. j - target_id) (filter (\<lambda>j. j \<noteq> target_id) ids))"

text \<open>
  The Lagrange coefficient in the words of the specification: the product, over the ids
  \<open>j\<close> other than the target, of the quotients \<open>j / (j - target_id)\<close> in the scalar field. A
  quotient by a scalar with no inverse has no value, and then neither has the product.
\<close>

definition scalar_div :: "'g curve \<Rightarrow> int \<Rightarrow> int \<Rightarrow> int option" where
  "scalar_div C a b =
     (case pow_inv (b mod ORDER C) (ORDER C) of
        None \<Rightarrow> None
      | Some y \<Rightarrow> Some ((a * y) mod ORDER C))"

definition lagrange_product :: "'g curve \<Rightarrow> int list \<Rightarrow> int \<Rightarrow> int option" where
  "lagrange_product C ids target_id =
     foldr (\<lambda>j acc.
              case (scalar_div C j (j - target_id), acc) of
                (Some q, Some a) \<Rightarrow> Some ((q * a) mod ORDER C)
              | _ \<Rightarrow> None)
       (filter (\<lambda>j. j \<noteq> target_id) ids) (Some (1 mod ORDER C))"

text \<open>
  The interpolated sum in the words of the specification: the sum of \<open>\<lambda>\<^sub>i(0)\<cdot>P\<^sub>i\<close> over
  the pairs of an id and its public share, from the point at infinity. It has a value
  where every coefficient has one.
\<close>

definition interpolated_sum :: "'g curve \<Rightarrow> int list \<Rightarrow> 'g list \<Rightarrow> 'g option" where
  "interpolated_sum C ids pubshares =
     foldl (\<lambda>acc (id_i, P_i).
              case (acc, lagrange_product C ids id_i) of
                (Some Q, Some lam_i) \<Rightarrow> Some (ge_add C Q (ge_mul C lam_i P_i))
              | _ \<Rightarrow> None)
       (Some (GE_inf C)) (zip ids pubshares)"

text \<open>The equation of \<open>egcd\<close> unfolds without end; it is used where needed only.\<close>

declare egcd.simps [simp del]

section \<open>A small instance\<close>

text \<open>
  The integers modulo 7 under addition, with generator 1, satisfy the contract; the
  theorems below are instantiated on this curve.
\<close>


lemma prime_order_7: "prime_order 7"
  by code_simp

lemma of_int_7_eq_0: "(of_int a :: 7) = 0 \<longleftrightarrow> 7 dvd a"
proof -
  have "(of_int a :: 7) = 0 \<longleftrightarrow> Rep_bit1 (of_int a :: 7) = Rep_bit1 (0 :: 7)"
    by (simp only: bit1.Rep_inject_sym)
  also have "\<dots> \<longleftrightarrow> a mod 7 = 0"
    using bit1.Rep_Abs_mod [where 'a = 3, of a] by (simp add: bit1.of_int_eq bit1.Rep_0)
  finally show ?thesis by (simp add: dvd_eq_mod_eq_0)
qed

lemma toy_ok: "curve_ok toy"
  unfolding curve_ok_def toy_def
  by (simp add: prime_order_7 of_int_7_eq_0 algebra_simps)

section \<open>The tweak and the loop over the participants\<close>


lemma taproot_Inl: "taproot_tweak_and_sign C P = Inl e \<Longrightarrow> e = AssertionError"
  by (auto simp: taproot_tweak_and_sign_def Let_def split: option.splits)

lemma taproot_ok:
  assumes "curve_ok C" "P \<noteq> GE_inf C"
  shows "\<exists>xb ev. to_bytes_xonly C P = Some xb \<and> has_even_y C P = Some ev \<and>
           taproot_tweak_and_sign C P =
             Inr (from_bytes_wrapping C (tagged_hash C ''TapTweak'' (xb @ replicate 32 0)),
                  if ev then 1 else - 1)"
proof -
  from assms have "to_bytes_xonly C P \<noteq> None" "has_even_y C P \<noteq> None"
    unfolding curve_ok_def by blast+
  then obtain xb ev where "to_bytes_xonly C P = Some xb" "has_even_y C P = Some ev"
    by auto
  then show ?thesis by (simp add: taproot_tweak_and_sign_def)
qed

lemma taproot_inf:
  assumes "curve_ok C"
  shows "taproot_tweak_and_sign C (GE_inf C) = Inl AssertionError"
proof -
  from assms have "to_bytes_xonly C (GE_inf C) = None" unfolding curve_ok_def by blast
  then show ?thesis by (simp add: taproot_tweak_and_sign_def)
qed

lemma share_loop_Inl:
  "share_loop C vss coeffs tweak g ids acc = Inl e \<Longrightarrow> e = ZeroShare \<or> e = AssertionError"
proof (induction ids arbitrary: acc)
  case Nil
  then show ?case by (cases acc) simp
next
  case (Cons i ids)
  then show ?case
    by (cases acc) (auto simp: Let_def split: if_splits)
qed

lemma share_loop_Inr:
  "share_loop C vss coeffs tweak g ids (ss0, ps0) = Inr (ss, ps) \<Longrightarrow>
     ss = ss0 @ map (share_value C coeffs tweak g) ids \<and>
     ps = ps0 @ map (\<lambda>i. ge_mul C (share_value C coeffs tweak g i) (GEN C)) ids \<and>
     (\<forall>i\<in>set ids. share_value C coeffs tweak g i \<noteq> 0 \<and>
        expected_pub C vss tweak g i = ge_mul C (share_value C coeffs tweak g i) (GEN C))"
proof (induction ids arbitrary: ss0 ps0)
  case Nil
  then show ?case by simp
next
  case (Cons i ids)
  let ?d = "share_value C coeffs tweak g i"
  from Cons.prems have nz: "?d \<noteq> 0"
    by (auto simp: Let_def share_value_def split: if_splits)
  from Cons.prems nz have eq: "expected_pub C vss tweak g i = ge_mul C ?d (GEN C)"
    by (auto simp: Let_def share_value_def expected_pub_def split: if_splits)
  from Cons.prems nz eq
  have "share_loop C vss coeffs tweak g ids (ss0 @ [?d], ps0 @ [ge_mul C ?d (GEN C)]) = Inr (ss, ps)"
    by (auto simp: Let_def share_value_def expected_pub_def split: if_splits)
  from Cons.IH [OF this] nz eq show ?case by simp
qed

section \<open>The shape of a run of the key generation\<close>


lemma sample_coeffs_shape:
  "sample_coeffs C k cs rs = (cs', rs') \<Longrightarrow> \<exists>xs. cs' = cs @ xs \<and> length xs = k"
proof (induction k arbitrary: cs rs)
  case 0
  then show ?case by simp
next
  case (Suc k)
  from Suc.prems obtain a rs1 where "sample_coeffs C k (cs @ [a]) rs1 = (cs', rs')"
    by (auto split: prod.splits)
  from Suc.IH [OF this] obtain xs where "cs' = (cs @ [a]) @ xs" "length xs = k" by blast
  then have "cs' = cs @ (a # xs) \<and> length (a # xs) = Suc k" by simp
  then show ?case by blast
qed

lemma keygen_Inr:
  assumes "trusted_dealer_key_generation C t n rs = Some (Inr (vss, ss, ps), rs')"
  obtains a0 rs1 coeffs P tweak g where
    "1 \<le> t" "t \<le> n"
    "random_scalar_nonzero C rs = Some (a0, rs1)"
    "sample_coeffs C (nat (t - 1)) [a0] rs1 = (coeffs, rs')"
    "vss = map (\<lambda>a. ge_mul C a (GEN C)) coeffs"
    "vss = P # tl vss" "P \<noteq> GE_inf C"
    "taproot_tweak_and_sign C P = Inr (tweak, g)"
    "ge_add C (ge_mul C g P) (ge_mul C tweak (GEN C)) \<noteq> GE_inf C"
    "share_loop C vss coeffs tweak g [1..n] ([], []) = Inr (ss, ps)"
  using assms unfolding trusted_dealer_key_generation_def Let_def infinity_def
  by (auto split: if_splits option.splits prod.splits list.splits sum.splits)

lemma keygen_Inl:
  assumes "trusted_dealer_key_generation C t n rs = Some (Inl e, rs')"
  shows "(e = InvalidParameters \<and> \<not> (1 \<le> t \<and> t \<le> n \<and> 1 \<le> n) \<and> rs' = rs) \<or>
         (1 \<le> t \<and> t \<le> n \<and> e \<in> {IndexError, InvalidCommitment, AssertionError, InvalidGroupKey, ZeroShare})"
  using assms unfolding trusted_dealer_key_generation_def Let_def
  by (auto split: if_splits option.splits prod.splits list.splits sum.splits
           dest: taproot_Inl share_loop_Inl)

section \<open>The modular inverse and prime orders\<close>



lemma egcd_bezout: "0 \<le> b \<Longrightarrow> egcd a b = (g, s, t) \<Longrightarrow> s * a + t * b = g"
proof (induction a b arbitrary: g s t rule: egcd.induct)
  case (1 a b)
  show ?case
  proof (cases "b \<le> 0")
    case True
    with "1.prems" show ?thesis by (simp add: egcd.simps [of a 0])
  next
    case False
    obtain g' s' t' where rec: "egcd b (a mod b) = (g', s', t')"
      by (cases "egcd b (a mod b)") auto
    from False have "0 \<le> a mod b" by simp
    from "1.IH" [OF False this rec] have ih: "s' * b + t' * (a mod b) = g'" .
    from "1.prems" False rec have res: "g = g'" "s = t'" "t = s' - (a div b) * t'"
      by (auto simp: egcd.simps [of a b])
    have md: "a mod b = a - (a div b) * b" by (simp add: minus_div_mult_eq_mod)
    have "s * a + t * b = t' * a + (s' - (a div b) * t') * b" by (simp add: res)
    also have "\<dots> = s' * b + t' * (a - (a div b) * b)" by (simp add: algebra_simps)
    also have "\<dots> = g'" using ih by (simp only: md)
    finally show ?thesis by (simp add: res)
  qed
qed

lemma egcd_gcd: "0 \<le> a \<Longrightarrow> 0 \<le> b \<Longrightarrow> fst (egcd a b) = gcd a b"
proof (induction a b rule: egcd.induct)
  case (1 a b)
  show ?case
  proof (cases "b \<le> 0")
    case True
    with "1.prems" show ?thesis by (simp add: egcd.simps [of a 0])
  next
    case False
    then have "0 \<le> a mod b" "0 \<le> b" by simp_all
    with "1.IH" [OF False] have ih: "fst (egcd b (a mod b)) = gcd b (a mod b)" by simp
    have red: "gcd b (a mod b) = gcd a b" by (metis gcd_red_int)
    obtain g' s' t' where rec: "egcd b (a mod b) = (g', s', t')"
      by (cases "egcd b (a mod b)") auto
    with ih red have "g' = gcd a b" by simp
    with False rec show ?thesis by (simp add: egcd.simps [of a b])
  qed
qed

lemma pow_inv_Some:
  assumes "1 < m" "0 \<le> x" "coprime x m"
  shows "\<exists>y. pow_inv x m = Some y \<and> 0 \<le> y \<and> y < m \<and> (x * y) mod m = 1"
proof -
  obtain g s t where e: "egcd x m = (g, s, t)" by (cases "egcd x m") auto
  from assms have "fst (egcd x m) = gcd x m" by (intro egcd_gcd) simp_all
  with e assms have g: "g = 1" by simp
  from assms e have "s * x + t * m = g" by (intro egcd_bezout) simp_all
  with g have "(s * x + t * m) mod m = 1 mod m" by simp
  then have "(s * x) mod m = 1" using assms by simp
  then have "(x * (s mod m)) mod m = 1" by (simp add: mod_simps mult.commute)
  moreover have "pow_inv x m = Some (s mod m)" using e g by (simp add: pow_inv_def)
  moreover have "0 \<le> s mod m" "s mod m < m" using assms by simp_all
  ultimately show ?thesis by blast
qed

lemma pow_inv_sound:
  assumes "1 < m" "pow_inv x m = Some y"
  shows "0 \<le> y \<and> y < m \<and> (x * y) mod m = 1"
proof -
  obtain g s t where e: "egcd x m = (g, s, t)" by (cases "egcd x m") auto
  with assms have g: "g = 1" and y: "y = s mod m"
    by (auto simp: pow_inv_def split: if_splits)
  from assms e have "s * x + t * m = g" by (intro egcd_bezout) simp_all
  with g have "(s * x + t * m) mod m = 1 mod m" by simp
  then have "(s * x) mod m = 1" using assms by simp
  then have "(x * (s mod m)) mod m = 1" by (simp add: mod_simps mult.commute)
  with y assms show ?thesis by simp
qed

lemma prime_order_coprime:
  assumes "prime_order p" "\<not> p dvd a"
  shows "coprime a p"
proof -
  let ?g = "gcd a p"
  from assms have p: "1 < p" and nd: "\<forall>d\<in>{2..<p}. \<not> d dvd p"
    by (simp_all add: prime_order_def)
  have g0: "0 \<le> ?g" by simp
  have gp: "?g dvd p" by simp
  from p have "?g \<noteq> 0" by simp
  with g0 have g1: "1 \<le> ?g" by linarith
  from gp p have gle: "?g \<le> p" by (intro zdvd_imp_le) simp_all
  have "?g \<noteq> p"
  proof
    assume "?g = p"
    then have "p dvd a" by (metis gcd_dvd1)
    with assms show False by simp
  qed
  with gle have "?g < p" by simp
  have "?g = 1"
  proof (rule ccontr)
    assume "?g \<noteq> 1"
    with g1 \<open>?g < p\<close> have "?g \<in> {2..<p}" by simp
    with nd gp show False by blast
  qed
  then show ?thesis by (simp add: coprime_iff_gcd_eq_1)
qed

lemma prime_order_dvd_mult:
  assumes "prime_order p" "p dvd a * b"
  shows "p dvd a \<or> p dvd b"
proof (cases "p dvd a")
  case True
  then show ?thesis by simp
next
  case False
  with assms have "coprime p a" by (simp add: prime_order_coprime coprime_commute)
  with assms show ?thesis by (simp add: coprime_dvd_mult_right_iff)
qed

section \<open>Multiples of the generator\<close>


lemma curve_okD:
  assumes "curve_ok C"
  shows "prime_order (ORDER C)"
    and "ge_add C (GE_inf C) P = P"
    and "ge_mul C 1 P = P"
    and "ge_add C (ge_mul C a P) (ge_mul C b P) = ge_mul C (a + b) P"
    and "ge_mul C a (ge_mul C b P) = ge_mul C (a * b) P"
    and "ge_mul C a (GEN C) = GE_inf C \<longleftrightarrow> ORDER C dvd a"
    and "to_bytes_xonly C P = None \<longleftrightarrow> P = GE_inf C"
    and "has_even_y C P = None \<longleftrightarrow> P = GE_inf C"
  using assms by (simp_all only: curve_ok_def)

lemmas ge_add_inf = curve_okD(2)
lemmas ge_mul_one = curve_okD(3)
lemmas ge_add_mul = curve_okD(4)
lemmas ge_mul_mul = curve_okD(5)
lemmas ge_mul_inf_iff = curve_okD(6)

lemma curve_order_gt1: "curve_ok C \<Longrightarrow> 1 < ORDER C"
  using curve_okD(1) [of C] by (simp add: prime_order_def)

lemma ge_inf_eq: "curve_ok C \<Longrightarrow> GE_inf C = ge_mul C 0 (GEN C)"
  using ge_mul_inf_iff [of C 0] by simp

lemma ge_mul_cong:
  assumes ok: "curve_ok C" and eq: "a mod ORDER C = b mod ORDER C"
  shows "ge_mul C a (GEN C) = ge_mul C b (GEN C)"
proof -
  from eq have "ORDER C dvd a - b" by (simp add: mod_eq_dvd_iff)
  then have "ge_mul C (a - b) (GEN C) = ge_mul C 0 (GEN C)"
    using ok by (simp add: ge_mul_inf_iff ge_inf_eq [symmetric])
  then have "ge_add C (ge_mul C b (GEN C)) (ge_mul C (a - b) (GEN C)) =
             ge_add C (ge_mul C b (GEN C)) (ge_mul C 0 (GEN C))" by simp
  then show ?thesis using ok by (simp add: ge_add_mul)
qed

lemma eval_point_scalar_loop:
  assumes ok: "curve_ok C"
  shows "r mod ORDER C = r' mod ORDER C \<Longrightarrow>
         eval_point_poly_loop C x (map (\<lambda>a. ge_mul C a (GEN C)) cs) (ge_mul C r (GEN C), pw) =
         ge_mul C (eval_scalar_poly_loop C x cs (r', pw)) (GEN C)"
proof (induction cs arbitrary: r r' pw)
  case Nil
  from ok Nil.prems have "ge_mul C r (GEN C) = ge_mul C r' (GEN C)" by (rule ge_mul_cong)
  then show ?case by simp
next
  case (Cons c cs)
  let ?p = "ORDER C"
  have "(r + pw * c) mod ?p = (r mod ?p + pw * c) mod ?p" by (simp add: mod_add_left_eq)
  also have "\<dots> = (r' mod ?p + pw * c) mod ?p" by (simp only: Cons.prems)
  also have "\<dots> = (r' + c * pw) mod ?p" by (simp add: mod_add_left_eq mult.commute)
  also have "\<dots> = ((r' + (c * pw) mod ?p) mod ?p) mod ?p" by (simp add: mod_add_right_eq)
  finally have m: "(r + pw * c) mod ?p = ((r' + (c * pw) mod ?p) mod ?p) mod ?p" .
  have step: "ge_add C (ge_mul C r (GEN C)) (ge_mul C pw (ge_mul C c (GEN C))) =
              ge_mul C (r + pw * c) (GEN C)"
    by (simp only: ge_mul_mul [OF ok] ge_add_mul [OF ok])
  show ?case
    by (simp only: list.map eval_point_poly_loop.simps eval_scalar_poly_loop.simps step
          Cons.IH [OF m])
qed

lemma eval_point_scalar:
  assumes ok: "curve_ok C"
  shows "eval_point_poly C (map (\<lambda>a. ge_mul C a (GEN C)) cs) x =
         ge_mul C (eval_scalar_poly C cs x) (GEN C)"
  using eval_point_scalar_loop [OF ok, of 0 "Scalar C 0" x cs "Scalar C 1"] ok
  by (simp add: eval_point_poly_def eval_scalar_poly_def Scalar_def ge_inf_eq)

lemma expected_pub_eq:
  assumes ok: "curve_ok C"
  shows "expected_pub C (map (\<lambda>a. ge_mul C a (GEN C)) coeffs) tweak g i =
         ge_mul C (share_value C coeffs tweak g i) (GEN C)"
proof -
  let ?f = "eval_scalar_poly C coeffs (Scalar C i)"
  have "expected_pub C (map (\<lambda>a. ge_mul C a (GEN C)) coeffs) tweak g i =
        ge_mul C (g * ?f + tweak) (GEN C)"
    using ok by (simp add: expected_pub_def eval_point_scalar ge_mul_mul ge_add_mul)
  also have "\<dots> = ge_mul C (share_value C coeffs tweak g i) (GEN C)"
    using ok by (intro ge_mul_cong) (simp_all add: share_value_def mod_simps)
  finally show ?thesis .
qed

lemma share_loop_total:
  assumes ok: "curve_ok C"
  shows "share_loop C (map (\<lambda>a. ge_mul C a (GEN C)) coeffs) coeffs tweak g ids (ss0, ps0) =
         (if \<exists>i\<in>set ids. share_value C coeffs tweak g i = 0 then Inl ZeroShare
          else Inr (ss0 @ map (share_value C coeffs tweak g) ids,
                    ps0 @ map (\<lambda>i. ge_mul C (share_value C coeffs tweak g i) (GEN C)) ids))"
proof (induction ids arbitrary: ss0 ps0)
  case Nil
  show ?case by simp
next
  case (Cons i ids)
  let ?vss = "map (\<lambda>a. ge_mul C a (GEN C)) coeffs"
  have e: "ge_add C (ge_mul C g (eval_point_poly C ?vss (Scalar C i))) (ge_mul C tweak (GEN C)) =
           ge_mul C (share_value C coeffs tweak g i) (GEN C)"
    using expected_pub_eq [OF ok, of coeffs tweak g i] by (simp add: expected_pub_def)
  show ?case
  proof (cases "share_value C coeffs tweak g i = 0")
    case True
    then show ?thesis by (simp add: share_value_def Let_def)
  next
    case False
    then have "share_loop C ?vss coeffs tweak g (i # ids) (ss0, ps0) =
          share_loop C ?vss coeffs tweak g ids
            (ss0 @ [share_value C coeffs tweak g i],
             ps0 @ [ge_mul C (share_value C coeffs tweak g i) (GEN C)])"
      using e by (simp add: share_value_def Let_def)
    also note Cons.IH
    finally show ?thesis using False by simp
  qed
qed

section \<open>The sampling loop, and what a returning run has computed\<close>


lemma rsn_nonzero:
  "shd rs mod ORDER C \<noteq> 0 \<Longrightarrow>
   random_scalar_nonzero C rs = Some (shd rs mod ORDER C, stl rs)"
  by (subst random_scalar_nonzero.simps) simp

lemma rsn_zero:
  "shd rs mod ORDER C = 0 \<Longrightarrow> random_scalar_nonzero C rs = random_scalar_nonzero C (stl rs)"
  by (subst random_scalar_nonzero.simps) simp

lemma rsn_Some:
  assumes "random_scalar_nonzero C rs = Some y"
  shows "\<exists>k. fst y = rs !! k mod ORDER C \<and> fst y \<noteq> 0 \<and> snd y = sdrop (Suc k) rs \<and>
       (\<forall>j<k. rs !! j mod ORDER C = 0)"
proof (rule random_scalar_nonzero.raw_induct
    [where P = "\<lambda>C rs y. \<exists>k. fst y = rs !! k mod ORDER C \<and> fst y \<noteq> 0 \<and>
                   snd y = sdrop (Suc k) rs \<and> (\<forall>j<k. rs !! j mod ORDER C = 0)", OF _ assms])
  fix f :: "'a curve \<Rightarrow> int stream \<Rightarrow> (int \<times> int stream) option" and C rs y
  assume IH: "\<And>C rs y. f C rs = Some y \<Longrightarrow>
                \<exists>k. fst y = rs !! k mod ORDER C \<and> fst y \<noteq> 0 \<and> snd y = sdrop (Suc k) rs \<and>
                    (\<forall>j<k. rs !! j mod ORDER C = 0)"
    and eq: "(let s = shd rs mod ORDER C
              in if s \<noteq> 0 then Some (s, stl rs) else f C (stl rs)) = Some y"
  show "\<exists>k. fst y = rs !! k mod ORDER C \<and> fst y \<noteq> 0 \<and> snd y = sdrop (Suc k) rs \<and>
            (\<forall>j<k. rs !! j mod ORDER C = 0)"
  proof (cases "shd rs mod ORDER C = 0")
    case False
    with eq have "y = (shd rs mod ORDER C, stl rs)" by (simp add: Let_def)
    with False have "fst y = rs !! 0 mod ORDER C \<and> fst y \<noteq> 0 \<and> snd y = sdrop (Suc 0) rs \<and>
       (\<forall>j<0. rs !! j mod ORDER C = 0)" by simp
    then show ?thesis by (rule exI)
  next
    case True
    with eq have "f C (stl rs) = Some y" by (simp add: Let_def)
    from IH [OF this] obtain k where k: "fst y = stl rs !! k mod ORDER C" "fst y \<noteq> 0"
      "snd y = sdrop (Suc k) (stl rs)" "\<forall>j<k. stl rs !! j mod ORDER C = 0" by blast
    have "\<forall>j<Suc k. rs !! j mod ORDER C = 0"
    proof (intro allI impI)
      fix j assume "j < Suc k"
      then show "rs !! j mod ORDER C = 0" using True k(4) by (cases j) simp_all
    qed
    with k have "fst y = rs !! Suc k mod ORDER C \<and> fst y \<noteq> 0 \<and> snd y = sdrop (Suc (Suc k)) rs \<and>
       (\<forall>j<Suc k. rs !! j mod ORDER C = 0)" by simp
    then show ?thesis by (rule exI)
  qed
qed

lemma rsn_returns:
  "rs !! k mod ORDER C \<noteq> 0 \<Longrightarrow> random_scalar_nonzero C rs \<noteq> None"
proof (induction k arbitrary: rs)
  case 0
  then show ?case by (simp add: rsn_nonzero)
next
  case (Suc k)
  show ?case
  proof (cases "shd rs mod ORDER C = 0")
    case True
    with Suc show ?thesis by (simp add: rsn_zero)
  next
    case False
    then show ?thesis by (simp add: rsn_nonzero)
  qed
qed

lemma rsn_None_iff:
  "random_scalar_nonzero C rs = None \<longleftrightarrow> (\<forall>k. rs !! k mod ORDER C = 0)"
proof
  assume "random_scalar_nonzero C rs = None"
  then show "\<forall>k. rs !! k mod ORDER C = 0" using rsn_returns [of rs _ C] by blast
next
  assume z: "\<forall>k. rs !! k mod ORDER C = 0"
  show "random_scalar_nonzero C rs = None"
  proof (rule ccontr)
    assume "random_scalar_nonzero C rs \<noteq> None"
    then obtain y where "random_scalar_nonzero C rs = Some y" by blast
    from rsn_Some [OF this] z show False by auto
  qed
qed

lemma upto_nth_id: "1 \<le> i \<Longrightarrow> i \<le> n \<Longrightarrow> [1..n] ! nat (i - 1) = i"
  by (simp add: nth_upto)

text \<open>What a returning run of the key generation has computed.\<close>

lemma keygen_run:
  assumes run: "trusted_dealer_key_generation C t n rs = Some (Inr (vss, ss, ps), rs')"
  obtains coeffs P tweak g where
    "1 \<le> t" "t \<le> n"
    "length coeffs = nat t"
    "vss = map (\<lambda>a. ge_mul C a (GEN C)) coeffs"
    "vss = P # tl vss" "P \<noteq> GE_inf C"
    "taproot_tweak_and_sign C P = Inr (tweak, g)"
    "ge_add C (ge_mul C g P) (ge_mul C tweak (GEN C)) \<noteq> GE_inf C"
    "ss = map (share_value C coeffs tweak g) [1..n]"
    "ps = map (\<lambda>i. ge_mul C (share_value C coeffs tweak g i) (GEN C)) [1..n]"
    "\<forall>i. 1 \<le> i \<and> i \<le> n \<longrightarrow> share_value C coeffs tweak g i \<noteq> 0 \<and>
       expected_pub C vss tweak g i = ge_mul C (share_value C coeffs tweak g i) (GEN C)"
proof -
  from run obtain a0 rs1 coeffs P tweak g where
    k: "1 \<le> t" "t \<le> n" "random_scalar_nonzero C rs = Some (a0, rs1)"
       "sample_coeffs C (nat (t - 1)) [a0] rs1 = (coeffs, rs')"
       "vss = map (\<lambda>a. ge_mul C a (GEN C)) coeffs"
       "vss = P # tl vss" "P \<noteq> GE_inf C"
       "taproot_tweak_and_sign C P = Inr (tweak, g)"
       "ge_add C (ge_mul C g P) (ge_mul C tweak (GEN C)) \<noteq> GE_inf C"
       "share_loop C vss coeffs tweak g [1..n] ([], []) = Inr (ss, ps)"
    by (rule keygen_Inr)
  from sample_coeffs_shape [OF k(4)] k(1) have len: "length coeffs = nat t" by auto
  from share_loop_Inr [OF k(10)] have
    s: "ss = map (share_value C coeffs tweak g) [1..n]"
       "ps = map (\<lambda>i. ge_mul C (share_value C coeffs tweak g i) (GEN C)) [1..n]"
       "\<forall>i\<in>set [1..n]. share_value C coeffs tweak g i \<noteq> 0 \<and>
          expected_pub C vss tweak g i = ge_mul C (share_value C coeffs tweak g i) (GEN C)"
    by simp_all
  from s(3) have all: "\<forall>i. 1 \<le> i \<and> i \<le> n \<longrightarrow> share_value C coeffs tweak g i \<noteq> 0 \<and>
              expected_pub C vss tweak g i = ge_mul C (share_value C coeffs tweak g i) (GEN C)"
    by simp
  show thesis
    by (rule that [OF k(1) k(2) len k(5) k(6) k(7) k(8) k(9) s(1) s(2) all])
qed

lemma verify_share_expected:
  assumes "d \<noteq> 0" "0 < i" "vss = P # rest" "P \<noteq> GE_inf C"
    "taproot_tweak_and_sign C P = Inr (tweak, g)"
  shows "verify_share C i d vss = Inr (expected_pub C vss tweak g i = ge_mul C d (GEN C))"
  using assms by (simp add: verify_share_def infinity_def expected_pub_def Let_def)

section \<open>The outcome of a run with valid parameters\<close>


lemma keygen_unfold:
  assumes ok: "curve_ok C" and v: "1 \<le> t" "t \<le> n"
    and r: "random_scalar_nonzero C rs = Some (a0, rs1)"
    and s: "sample_coeffs C (nat (t - 1)) [a0] rs1 = (coeffs, rs2)"
  shows "\<exists>tweak g.
     ge_mul C a0 (GEN C) \<noteq> GE_inf C \<and> length coeffs = nat t \<and> coeffs = a0 # tl coeffs \<and>
     taproot_tweak_and_sign C (ge_mul C a0 (GEN C)) = Inr (tweak, g) \<and>
     trusted_dealer_key_generation C t n rs =
       Some (if ge_add C (ge_mul C g (ge_mul C a0 (GEN C))) (ge_mul C tweak (GEN C)) = GE_inf C
             then Inl InvalidGroupKey
             else if \<exists>i\<in>set [1..n]. share_value C coeffs tweak g i = 0 then Inl ZeroShare
             else Inr (map (\<lambda>a. ge_mul C a (GEN C)) coeffs,
                       map (share_value C coeffs tweak g) [1..n],
                       map (\<lambda>i. ge_mul C (share_value C coeffs tweak g i) (GEN C)) [1..n]),
             rs2)"
proof -
  let ?P = "ge_mul C a0 (GEN C)"
  from rsn_Some [OF r] obtain k where a0: "a0 = rs !! k mod ORDER C" "a0 \<noteq> 0" by auto
  then have "a0 mod ORDER C \<noteq> 0" by simp
  then have "\<not> ORDER C dvd a0" by (simp add: dvd_eq_mod_eq_0)
  with ok have Pinf: "?P \<noteq> GE_inf C" by (simp add: ge_mul_inf_iff)
  from taproot_ok [OF ok Pinf] obtain tweak g where
    tw: "taproot_tweak_and_sign C ?P = Inr (tweak, g)" by blast
  from sample_coeffs_shape [OF s] v obtain xs where xs: "coeffs = a0 # xs" and
    len: "length coeffs = nat t" by auto
  have sl: "share_loop C (?P # map (\<lambda>a. ge_mul C a (GEN C)) xs) (a0 # xs) tweak g [1..n] ([], []) =
         (if \<exists>i\<in>set [1..n]. share_value C (a0 # xs) tweak g i = 0 then Inl ZeroShare
          else Inr (map (share_value C (a0 # xs) tweak g) [1..n],
                    map (\<lambda>i. ge_mul C (share_value C (a0 # xs) tweak g i) (GEN C)) [1..n]))"
    using share_loop_total [OF ok, of "a0 # xs" tweak g "[1..n]" "[]" "[]"] by simp
  have "trusted_dealer_key_generation C t n rs =
       Some (if ge_add C (ge_mul C g ?P) (ge_mul C tweak (GEN C)) = GE_inf C
             then Inl InvalidGroupKey
             else if \<exists>i\<in>set [1..n]. share_value C coeffs tweak g i = 0 then Inl ZeroShare
             else Inr (map (\<lambda>a. ge_mul C a (GEN C)) coeffs,
                       map (share_value C coeffs tweak g) [1..n],
                       map (\<lambda>i. ge_mul C (share_value C coeffs tweak g i) (GEN C)) [1..n]),
             rs2)"
    using v r s Pinf tw
    by (simp add: trusted_dealer_key_generation_def xs infinity_def sl del: share_loop.simps)
  moreover from xs have "coeffs = a0 # tl coeffs" by simp
  ultimately show ?thesis using tw Pinf len by blast
qed

text \<open>The samples that the run draws, by their positions in the random source.\<close>

lemma rsn_first:
  "rs !! k mod ORDER C \<noteq> 0 \<Longrightarrow> (\<forall>j<k. rs !! j mod ORDER C = 0) \<Longrightarrow>
   random_scalar_nonzero C rs = Some (rs !! k mod ORDER C, sdrop (Suc k) rs)"
proof (induction k arbitrary: rs)
  case 0
  then show ?case by (simp add: rsn_nonzero)
next
  case (Suc k)
  from Suc.prems(2) have z: "shd rs mod ORDER C = 0" by (metis snth.simps(1) zero_less_Suc)
  have "\<forall>j<k. stl rs !! j mod ORDER C = 0"
  proof (intro allI impI)
    fix j assume "j < k"
    then have "Suc j < Suc k" by simp
    with Suc.prems(2) have "rs !! Suc j mod ORDER C = 0" by blast
    then show "stl rs !! j mod ORDER C = 0" by simp
  qed
  moreover from Suc.prems(1) have "stl rs !! k mod ORDER C \<noteq> 0" by simp
  ultimately have "random_scalar_nonzero C (stl rs) =
      Some (stl rs !! k mod ORDER C, sdrop (Suc k) (stl rs))" by (rule Suc.IH [rotated])
  with z show ?case by (simp add: rsn_zero)
qed

lemma sample_coeffs_eq:
  "sample_coeffs C m cs rs = (cs @ map (\<lambda>j. rs !! j mod ORDER C) [0..<m], sdrop m rs)"
proof (induction m arbitrary: cs rs)
  case 0
  show ?case by simp
next
  case (Suc m)
  have "sample_coeffs C (Suc m) cs rs = sample_coeffs C m (cs @ [shd rs mod ORDER C]) (stl rs)"
    by (simp add: random_scalar_def)
  also have "\<dots> = ((cs @ [shd rs mod ORDER C]) @ map (\<lambda>j. stl rs !! j mod ORDER C) [0..<m],
                     sdrop m (stl rs))" by (rule Suc.IH)
  also have "(cs @ [shd rs mod ORDER C]) @ map (\<lambda>j. stl rs !! j mod ORDER C) [0..<m] =
             cs @ map (\<lambda>j. rs !! j mod ORDER C) [0..<Suc m]"
    by (simp add: map_upt_Suc del: upt_Suc)
  finally show ?case by simp
qed

lemma sampled_coeffs:
  assumes t: "1 \<le> t"
  shows "sample_coeffs C (nat (t - 1)) [rs !! k mod ORDER C] (sdrop (Suc k) rs) =
         (map (\<lambda>j. rs !! j mod ORDER C) [k..<k + nat t], sdrop (k + nat t) rs)"
proof -
  let ?m = "nat (t - 1)"
  from t have nt: "nat t = Suc ?m" by simp
  have "map (\<lambda>j. sdrop (Suc k) rs !! j mod ORDER C) [0..<?m] =
        map (\<lambda>j. rs !! j mod ORDER C) (map (\<lambda>j. j + Suc k) [0..<?m])"
    by (simp add: sdrop_snth add.commute)
  also have "map (\<lambda>j. j + Suc k) [0..<?m] = [Suc k..<?m + Suc k]" by (rule map_add_upt)
  finally have "[rs !! k mod ORDER C] @ map (\<lambda>j. sdrop (Suc k) rs !! j mod ORDER C) [0..<?m] =
        map (\<lambda>j. rs !! j mod ORDER C) (k # [Suc k..<?m + Suc k])" by simp
  also have "k # [Suc k..<?m + Suc k] = [k..<k + nat t]"
    by (simp add: nt upt_conv_Cons add.commute)
  finally have "[rs !! k mod ORDER C] @ map (\<lambda>j. sdrop (Suc k) rs !! j mod ORDER C) [0..<?m] =
        map (\<lambda>j. rs !! j mod ORDER C) [k..<k + nat t]" .
  moreover have "sdrop ?m (sdrop (Suc k) rs) = sdrop (k + nat t) rs"
    by (simp add: nt add.commute)
  ultimately show ?thesis by (simp only: sample_coeffs_eq)
qed

section \<open>Parameters and shares of the key generation\<close>


lemma toy_fields:
  "ORDER toy = 7" "GE_inf toy = 0" "GEN toy = 1" "ge_add toy P Q = P + Q"
  "ge_mul toy a P = of_int a * P"
  "to_bytes_xonly toy P = (if P = 0 then None else Some [word_of_int (Rep_bit1 P)])"
  "has_even_y toy P = (if P = 0 then None else Some (even (Rep_bit1 P)))"
  "tagged_hash toy tag msg = [of_nat (length tag), hd msg]"
  by (simp_all add: toy_def)

lemmas toy_eval =
  toy_fields trusted_dealer_key_generation_def rsn_nonzero rsn_zero taproot_tweak_and_sign_def
  bit1.Rep_numeral bit1.Rep_1 from_bytes_wrapping_def int_from_bytes_def random_scalar_def
  infinity_def eval_point_poly_def eval_scalar_poly_def Scalar_def upto.simps Let_def

lemma toy_run:
  "trusted_dealer_key_generation toy 2 3 (0 ## 7 ## 5 ## 3 ## sconst 3) =
     Some (Inr ([5, 3], [1, 5, 2], [1, 5, 2]), sconst 3)"
  by (simp add: toy_eval)

lemma toy_run_zero_share:
  "trusted_dealer_key_generation toy 2 3 (5 ## 2 ## sconst 3) = Some (Inl ZeroShare, sconst 3)"
  by (simp add: toy_eval)

text \<open>
  Claim C7. The key generation fails with \<open>InvalidParameters\<close> exactly when
  \<open>1 \<le> t \<le> n\<close> and \<open>n \<ge> 1\<close> does not hold, and then no randomness has been sampled: the
  random source comes back as it went in. In particular \<open>t = 0, n = 5\<close> and
  \<open>t = 3, n = 2\<close> fail so.
\<close>

theorem keygen_invalid_parameters:
  "((\<exists>rs'. trusted_dealer_key_generation C t n rs = Some (Inl InvalidParameters, rs'))
      \<longleftrightarrow> \<not> (1 \<le> t \<and> t \<le> n \<and> 1 \<le> n))
   \<and> (\<forall>rs'. trusted_dealer_key_generation C t n rs = Some (Inl InvalidParameters, rs')
          \<longrightarrow> rs' = rs)
   \<and> trusted_dealer_key_generation C 0 5 rs = Some (Inl InvalidParameters, rs)
   \<and> trusted_dealer_key_generation C 3 2 rs = Some (Inl InvalidParameters, rs)"
proof (intro conjI allI impI)
  show "(\<exists>rs'. trusted_dealer_key_generation C t n rs = Some (Inl InvalidParameters, rs'))
      \<longleftrightarrow> \<not> (1 \<le> t \<and> t \<le> n \<and> 1 \<le> n)"
  proof
    assume "\<exists>rs'. trusted_dealer_key_generation C t n rs = Some (Inl InvalidParameters, rs')"
    then obtain rs' where "trusted_dealer_key_generation C t n rs = Some (Inl InvalidParameters, rs')"
      by blast
    from keygen_Inl [OF this] show "\<not> (1 \<le> t \<and> t \<le> n \<and> 1 \<le> n)" by auto
  next
    assume "\<not> (1 \<le> t \<and> t \<le> n \<and> 1 \<le> n)"
    then have "trusted_dealer_key_generation C t n rs = Some (Inl InvalidParameters, rs)"
      by (auto simp: trusted_dealer_key_generation_def)
    then show "\<exists>rs'. trusted_dealer_key_generation C t n rs = Some (Inl InvalidParameters, rs')"
      by blast
  qed
next
  fix rs'
  assume "trusted_dealer_key_generation C t n rs = Some (Inl InvalidParameters, rs')"
  from keygen_Inl [OF this] show "rs' = rs" by auto
next
  show "trusted_dealer_key_generation C 0 5 rs = Some (Inl InvalidParameters, rs)"
    by (simp add: trusted_dealer_key_generation_def)
next
  show "trusted_dealer_key_generation C 3 2 rs = Some (Inl InvalidParameters, rs)"
    by (simp add: trusted_dealer_key_generation_def)
qed

theorem keygen_invalid_parameters_witness:
  "(\<exists>rs'. trusted_dealer_key_generation toy 3 2 (sconst 1) = Some (Inl InvalidParameters, rs'))
   \<and> trusted_dealer_key_generation toy 0 5 (sconst 1) = Some (Inl InvalidParameters, sconst 1)
   \<and> \<not> (\<exists>rs'. trusted_dealer_key_generation toy 2 3 (sconst 1) = Some (Inl InvalidParameters, rs'))"
  using keygen_invalid_parameters [of toy 3 2 "sconst 1"]
    keygen_invalid_parameters [of toy 2 3 "sconst 1"]
  by simp

text \<open>
  Claim C3. In every run that returns, for every \<open>i\<close> in \<open>1..n\<close> the public share at
  index \<open>i - 1\<close> is the secret share at index \<open>i - 1\<close> times \<open>G\<close>, and every secret share
  is nonzero.
\<close>

theorem keygen_public_share_of_secret:
  assumes run: "trusted_dealer_key_generation C t n rs = Some (Inr (vss, ss, ps), rs')"
    and i: "1 \<le> i" "i \<le> n"
  shows "ps ! nat (i - 1) = ge_mul C (ss ! nat (i - 1)) (GEN C)
         \<and> ss ! nat (i - 1) \<noteq> 0 \<and> 0 \<notin> set ss"
proof -
  from run obtain coeffs P tweak g where
    k: "ss = map (share_value C coeffs tweak g) [1..n]"
       "ps = map (\<lambda>i. ge_mul C (share_value C coeffs tweak g i) (GEN C)) [1..n]"
       "\<forall>i. 1 \<le> i \<and> i \<le> n \<longrightarrow> share_value C coeffs tweak g i \<noteq> 0 \<and>
          expected_pub C vss tweak g i = ge_mul C (share_value C coeffs tweak g i) (GEN C)"
    by (rule keygen_run)
  from i have len: "nat (i - 1) < length [1..n]" by simp
  from i have nth: "[1..n] ! nat (i - 1) = i" by (rule upto_nth_id)
  have "ps ! nat (i - 1) = ge_mul C (ss ! nat (i - 1)) (GEN C)"
    unfolding k(1,2) using len nth by (simp only: nth_map)
  moreover have "ss ! nat (i - 1) = share_value C coeffs tweak g i"
    unfolding k(1) using len nth by (simp only: nth_map)
  moreover have "0 \<notin> set ss" using k(3) unfolding k(1) by auto
  ultimately show ?thesis using k(3) i by simp
qed

theorem keygen_public_share_of_secret_witness:
  "[1, 5, 2 :: 7] ! nat (2 - 1) = ge_mul toy ([1, 5, 2] ! nat (2 - 1)) (GEN toy)
   \<and> [1, 5, 2 :: int] ! nat (2 - 1) \<noteq> 0 \<and> 0 \<notin> set [1, 5, 2 :: int]"
  using keygen_public_share_of_secret [OF toy_run, of 2] by simp

text \<open>
  Claim C1, amended. For every valid pair \<open>1 \<le> t \<le> n\<close> the outcome of the key generation
  is decided by the samples. The run never returns exactly when every sample is zero
  modulo the order. Otherwise let the first sample that is not zero stand at position
  \<open>k\<close>: the coefficients are the \<open>t\<close> samples from position \<open>k\<close> on, the run leaves the
  random source after them, and it
  \<^item> aborts with \<open>InvalidGroupKey\<close> exactly when \<open>Q = g\<cdot>A\<^sub>0 + tweak\<cdot>G\<close> is the point at
    infinity,
  \<^item> aborts with \<open>ZeroShare\<close> exactly when \<open>Q\<close> is not, and some share
    \<open>d\<^sub>i = g\<cdot>f(i) + tweak\<close> with \<open>i\<close> in \<open>1..n\<close> is zero,
  \<^item> and in every other case returns the \<open>t\<close> commitments, exactly \<open>n\<close> secret shares and
    \<open>n\<close> public shares, where list index \<open>i - 1\<close> belongs to participant \<open>i\<close>: the secret share
    there is \<open>d\<^sub>i\<close>, the public share is \<open>d\<^sub>i\<cdot>G = g\<cdot>E(i) + tweak\<cdot>G\<close>, and
    \<^verbatim>\<open>verify_share(i, secret_shares[i-1], vss_commitment)\<close> is true.
\<close>

theorem keygen_valid_run:
  assumes ok: "curve_ok C" and v: "1 \<le> t" "t \<le> n"
  shows "(trusted_dealer_key_generation C t n rs = None \<longleftrightarrow> (\<forall>k. rs !! k mod ORDER C = 0)) \<and>
         (\<forall>k. rs !! k mod ORDER C \<noteq> 0 \<and> (\<forall>j<k. rs !! j mod ORDER C = 0) \<longrightarrow>
            (\<exists>tweak g.
               taproot_tweak_and_sign C (ge_mul C (rs !! k mod ORDER C) (GEN C)) = Inr (tweak, g) \<and>
               (let coeffs = map (\<lambda>j. rs !! j mod ORDER C) [k..<k + nat t];
                    vss = map (\<lambda>a. ge_mul C a (GEN C)) coeffs;
                    Q = ge_add C (ge_mul C g (hd vss)) (ge_mul C tweak (GEN C));
                    ss = map (share_value C coeffs tweak g) [1..n];
                    ps = map (\<lambda>i. ge_mul C (share_value C coeffs tweak g i) (GEN C)) [1..n]
                in trusted_dealer_key_generation C t n rs =
                     Some (if Q = GE_inf C then Inl InvalidGroupKey
                           else if 0 \<in> set ss then Inl ZeroShare
                           else Inr (vss, ss, ps),
                           sdrop (k + nat t) rs) \<and>
                   hd vss = ge_mul C (rs !! k mod ORDER C) (GEN C) \<and>
                   length vss = nat t \<and> length ss = nat n \<and> length ps = nat n \<and>
                   (Q \<noteq> GE_inf C \<and> 0 \<notin> set ss \<longrightarrow>
                      (\<forall>i. 1 \<le> i \<and> i \<le> n \<longrightarrow>
                         verify_share C i (ss ! nat (i - 1)) vss = Inr True \<and>
                         ss ! nat (i - 1) = share_value C coeffs tweak g i \<and>
                         ps ! nat (i - 1) = expected_pub C vss tweak g i)))))"
proof -
  let ?p = "ORDER C"
  have run: "\<exists>tweak g.
       taproot_tweak_and_sign C (ge_mul C (rs !! k mod ?p) (GEN C)) = Inr (tweak, g) \<and>
       (let coeffs = map (\<lambda>j. rs !! j mod ?p) [k..<k + nat t];
            vss = map (\<lambda>a. ge_mul C a (GEN C)) coeffs;
            Q = ge_add C (ge_mul C g (hd vss)) (ge_mul C tweak (GEN C));
            ss = map (share_value C coeffs tweak g) [1..n];
            ps = map (\<lambda>i. ge_mul C (share_value C coeffs tweak g i) (GEN C)) [1..n]
        in trusted_dealer_key_generation C t n rs =
             Some (if Q = GE_inf C then Inl InvalidGroupKey
                   else if 0 \<in> set ss then Inl ZeroShare
                   else Inr (vss, ss, ps),
                   sdrop (k + nat t) rs) \<and>
           hd vss = ge_mul C (rs !! k mod ?p) (GEN C) \<and>
           length vss = nat t \<and> length ss = nat n \<and> length ps = nat n \<and>
           (Q \<noteq> GE_inf C \<and> 0 \<notin> set ss \<longrightarrow>
              (\<forall>i. 1 \<le> i \<and> i \<le> n \<longrightarrow>
                 verify_share C i (ss ! nat (i - 1)) vss = Inr True \<and>
                 ss ! nat (i - 1) = share_value C coeffs tweak g i \<and>
                 ps ! nat (i - 1) = expected_pub C vss tweak g i)))"
    if k: "rs !! k mod ?p \<noteq> 0 \<and> (\<forall>j<k. rs !! j mod ?p = 0)" for k
  proof -
    let ?a0 = "rs !! k mod ?p"
    let ?coeffs = "map (\<lambda>j. rs !! j mod ?p) [k..<k + nat t]"
    let ?vss = "map (\<lambda>a. ge_mul C a (GEN C)) ?coeffs"
    from k have r: "random_scalar_nonzero C rs = Some (?a0, sdrop (Suc k) rs)"
      by (intro rsn_first) simp_all
    from v(1) have s: "sample_coeffs C (nat (t - 1)) [?a0] (sdrop (Suc k) rs) =
        (?coeffs, sdrop (k + nat t) rs)" by (rule sampled_coeffs)
    from keygen_unfold [OF ok v r s] obtain tweak g where
      Pinf: "ge_mul C ?a0 (GEN C) \<noteq> GE_inf C" and len: "length ?coeffs = nat t" and
      cs: "?coeffs = ?a0 # tl ?coeffs" and
      tw: "taproot_tweak_and_sign C (ge_mul C ?a0 (GEN C)) = Inr (tweak, g)" and
      kg: "trusted_dealer_key_generation C t n rs =
         Some (if ge_add C (ge_mul C g (ge_mul C ?a0 (GEN C))) (ge_mul C tweak (GEN C)) = GE_inf C
               then Inl InvalidGroupKey
               else if \<exists>i\<in>set [1..n]. share_value C ?coeffs tweak g i = 0 then Inl ZeroShare
               else Inr (?vss,
                         map (share_value C ?coeffs tweak g) [1..n],
                         map (\<lambda>i. ge_mul C (share_value C ?coeffs tweak g i) (GEN C)) [1..n]),
               sdrop (k + nat t) rs)"
      by (elim exE conjE) (rule that)
    let ?d = "share_value C ?coeffs tweak g"
    let ?ss = "map ?d [1..n]"
    let ?ps = "map (\<lambda>i. ge_mul C (?d i) (GEN C)) [1..n]"
    let ?Q = "ge_add C (ge_mul C g (hd ?vss)) (ge_mul C tweak (GEN C))"
    have vss: "?vss = ge_mul C ?a0 (GEN C) # map (\<lambda>a. ge_mul C a (GEN C)) (tl ?coeffs)"
      by (subst cs) simp
    have hd: "hd ?vss = ge_mul C ?a0 (GEN C)" by (subst cs) simp
    have zero: "(0 \<in> set ?ss) = (\<exists>i\<in>set [1..n]. ?d i = 0)" by (auto simp: image_iff)
    have eq: "trusted_dealer_key_generation C t n rs =
         Some (if ?Q = GE_inf C then Inl InvalidGroupKey
               else if 0 \<in> set ?ss then Inl ZeroShare
               else Inr (?vss, ?ss, ?ps),
               sdrop (k + nat t) rs)"
      by (simp only: hd zero kg)
    have l1: "length ?vss = nat t" using len by simp
    from v have l2: "length ?ss = nat n" and l3: "length ?ps = nat n" by simp_all
    have good: "?Q \<noteq> GE_inf C \<and> 0 \<notin> set ?ss \<longrightarrow>
          (\<forall>i. 1 \<le> i \<and> i \<le> n \<longrightarrow>
             verify_share C i (?ss ! nat (i - 1)) ?vss = Inr True \<and>
             ?ss ! nat (i - 1) = ?d i \<and>
             ?ps ! nat (i - 1) = expected_pub C ?vss tweak g i)"
    proof (intro impI allI)
      fix i
      assume a: "?Q \<noteq> GE_inf C \<and> 0 \<notin> set ?ss" and i: "1 \<le> i \<and> i \<le> n"
      from i have ilen: "nat (i - 1) < length [1..n]" by simp
      from i have nth: "[1..n] ! nat (i - 1) = i" by (simp add: upto_nth_id)
      have d: "?ss ! nat (i - 1) = ?d i" using ilen nth by (simp only: nth_map)
      have p: "?ps ! nat (i - 1) = ge_mul C (?d i) (GEN C)" using ilen nth by (simp only: nth_map)
      from i have "i \<in> set [1..n]" by simp
      with a have nz: "?d i \<noteq> 0" by (simp only: zero) blast
      have e: "expected_pub C ?vss tweak g i = ge_mul C (?d i) (GEN C)"
        by (rule expected_pub_eq [OF ok])
      from i have "0 < i" by simp
      from verify_share_expected [OF nz this vss Pinf tw] e
      have "verify_share C i (?d i) ?vss = Inr True" by simp
      with d p e show "verify_share C i (?ss ! nat (i - 1)) ?vss = Inr True \<and>
             ?ss ! nat (i - 1) = ?d i \<and>
             ?ps ! nat (i - 1) = expected_pub C ?vss tweak g i" by simp
    qed
    show ?thesis
      unfolding Let_def
      apply (rule exI [of _ tweak], rule exI [of _ g])
      apply (intro conjI)
           apply (rule tw)
          apply (rule eq)
         apply (rule hd)
        apply (rule l1)
       apply (rule l2)
      apply (rule l3)
      apply (rule good)
      done
  qed
  have none: "trusted_dealer_key_generation C t n rs = None \<longleftrightarrow> (\<forall>k. rs !! k mod ?p = 0)"
  proof
    assume n: "trusted_dealer_key_generation C t n rs = None"
    show "\<forall>k. rs !! k mod ?p = 0"
    proof (rule ccontr)
      assume "\<not> (\<forall>k. rs !! k mod ?p = 0)"
      then have "random_scalar_nonzero C rs \<noteq> None" using rsn_None_iff [of C rs] by blast
      then obtain a0 rs1 where r: "random_scalar_nonzero C rs = Some (a0, rs1)" by auto
      obtain coeffs rs2 where s: "sample_coeffs C (nat (t - 1)) [a0] rs1 = (coeffs, rs2)"
        by (cases "sample_coeffs C (nat (t - 1)) [a0] rs1")
      from keygen_unfold [OF ok v r s] have "trusted_dealer_key_generation C t n rs \<noteq> None"
        by auto
      with n show False by simp
    qed
  next
    assume "\<forall>k. rs !! k mod ?p = 0"
    then have "random_scalar_nonzero C rs = None" using rsn_None_iff [of C rs] by blast
    with v show "trusted_dealer_key_generation C t n rs = None"
      by (simp add: trusted_dealer_key_generation_def)
  qed
  from none run show ?thesis by blast
qed

text \<open>
  On the toy curve the samples \<open>0, 7, 5, 3\<close> put the first nonzero sample at position 2;
  the run returns the commitments of \<open>5, 3\<close> and three verified shares.
\<close>

theorem keygen_valid_run_witness:
  "curve_ok toy \<and> (1::int) \<le> 2 \<and> (2::int) \<le> 3 \<and>
   trusted_dealer_key_generation toy 2 3 (0 ## 7 ## 5 ## 3 ## sconst 3) =
     Some (Inr ([5, 3], [1, 5, 2], [1, 5, 2]), sconst 3) \<and>
   verify_share toy 1 ([1, 5, 2] ! nat (1 - 1)) [5, 3] = Inr True \<and>
   verify_share toy 2 ([1, 5, 2] ! nat (2 - 1)) [5, 3] = Inr True \<and>
   verify_share toy 3 ([1, 5, 2] ! nat (3 - 1)) [5, 3] = Inr True"
proof -
  let ?rs = "0 ## 7 ## 5 ## 3 ## sconst (3 :: int)"
  have h: "(1::int) \<le> 2" "(2::int) \<le> 3" by simp_all
  have k: "?rs !! 2 mod ORDER toy \<noteq> 0 \<and> (\<forall>j<2. ?rs !! j mod ORDER toy = 0)"
    by (simp add: toy_fields numeral_2_eq_2 less_Suc_eq)
  from keygen_valid_run [OF toy_ok h, of ?rs] k obtain tweak g where
    a: "let coeffs = map (\<lambda>j. ?rs !! j mod ORDER toy) [2..<2 + nat 2];
            vss = map (\<lambda>a. ge_mul toy a (GEN toy)) coeffs;
            Q = ge_add toy (ge_mul toy g (hd vss)) (ge_mul toy tweak (GEN toy));
            ss = map (share_value toy coeffs tweak g) [1..3];
            ps = map (\<lambda>i. ge_mul toy (share_value toy coeffs tweak g i) (GEN toy)) [1..3]
        in trusted_dealer_key_generation toy 2 3 ?rs =
             Some (if Q = GE_inf toy then Inl InvalidGroupKey
                   else if 0 \<in> set ss then Inl ZeroShare
                   else Inr (vss, ss, ps),
                   sdrop (2 + nat 2) ?rs) \<and>
           hd vss = ge_mul toy (?rs !! 2 mod ORDER toy) (GEN toy) \<and>
           length vss = nat 2 \<and> length ss = nat 3 \<and> length ps = nat 3 \<and>
           (Q \<noteq> GE_inf toy \<and> 0 \<notin> set ss \<longrightarrow>
              (\<forall>i. 1 \<le> i \<and> i \<le> 3 \<longrightarrow>
                 verify_share toy i (ss ! nat (i - 1)) vss = Inr True \<and>
                 ss ! nat (i - 1) = share_value toy coeffs tweak g i \<and>
                 ps ! nat (i - 1) = expected_pub toy vss tweak g i))"
    by blast
  from a toy_run have
    b: "\<forall>i. 1 \<le> i \<and> i \<le> 3 \<longrightarrow> verify_share toy i ([1, 5, 2] ! nat (i - 1)) [5, 3] = Inr True"
    unfolding Let_def by (auto split: if_splits)
  from b [rule_format, of 1] b [rule_format, of 2] b [rule_format, of 3] toy_run
  show ?thesis by (simp add: toy_ok)
qed

text \<open>
  The claim as stated fails: with \<open>t = 2\<close>, \<open>n = 3\<close> and the samples \<open>5, 2\<close> the share of
  participant 2 is zero and the run aborts with \<open>ZeroShare\<close>.
\<close>

theorem keygen_may_abort_counterexample:
  "curve_ok toy \<and> (1::int) \<le> 2 \<and> (2::int) \<le> 3 \<and>
   trusted_dealer_key_generation toy 2 3 (5 ## 2 ## sconst 3) = Some (Inl ZeroShare, sconst 3)"
  by (simp add: toy_ok toy_run_zero_share)

section \<open>The tweak, the group key and the share verification\<close>


text \<open>
  Claim C5. \<^verbatim>\<open>_taproot_tweak_and_sign\<close> fails on the point at infinity; on every other
  point it returns the scalar reduction of the tagged hash of the x-only encoding followed
  by 32 zero bytes, under the tag \<open>TapTweak\<close>, and the sign \<open>+1\<close> for an even Y and \<open>-1\<close>
  otherwise. The result is a function of the point alone, so repeated calls agree.
\<close>

theorem taproot_tweak_and_sign_spec:
  assumes ok: "curve_ok C"
  shows "taproot_tweak_and_sign C (GE_inf C) = Inl AssertionError \<and>
         (P \<noteq> GE_inf C \<longrightarrow>
            (\<exists>xonly even_y.
               to_bytes_xonly C P = Some xonly \<and> has_even_y C P = Some even_y \<and>
               taproot_tweak_and_sign C P =
                 Inr (from_bytes_wrapping C (tagged_hash C ''TapTweak'' (xonly @ replicate 32 0)),
                      if even_y then 1 else - 1)))"
  using taproot_inf [OF ok] taproot_ok [OF ok, of P] by blast

theorem taproot_tweak_and_sign_spec_witness:
  "curve_ok toy \<and> taproot_tweak_and_sign toy (GE_inf toy) = Inl AssertionError \<and>
   (3 :: 7) \<noteq> GE_inf toy \<and> taproot_tweak_and_sign toy 3 = Inr (0, - 1) \<and>
   taproot_tweak_and_sign toy 4 = Inr (1, 1)"
  using taproot_tweak_and_sign_spec [OF toy_ok, of 3]
  by (simp add: toy_ok toy_fields taproot_tweak_and_sign_def bit1.Rep_numeral
        from_bytes_wrapping_def int_from_bytes_def)

lemma toy_neg3: "(- 3 :: 7) = 4"
  by (simp add: neg_eq_iff_add_eq_0)

lemma toy_tweaked_key: "tweaked_key toy 5 = Inr 4"
  by (simp add: toy_fields tweaked_key_def taproot_tweak_and_sign_def bit1.Rep_numeral
        from_bytes_wrapping_def int_from_bytes_def toy_neg3)

text \<open>
  Claim C8. \<^verbatim>\<open>group_pubkey_from_commitment\<close> is a function of the commitment list alone.
  It fails exactly when the list is empty, its first point is the point at infinity, or
  \<open>Q = g\<cdot>A\<^sub>0 + tweak\<cdot>G\<close> is the point at infinity; otherwise it returns that \<open>Q\<close>.
\<close>

theorem group_pubkey_from_commitment_spec:
  assumes ok: "curve_ok C"
  shows "(isl (group_pubkey_from_commitment C vss) \<longleftrightarrow>
            vss = [] \<or>
            (\<exists>P rest. vss = P # rest \<and> (P = GE_inf C \<or> tweaked_key C P = Inr (GE_inf C)))) \<and>
         (\<forall>P rest. vss = P # rest \<and> \<not> isl (group_pubkey_from_commitment C vss) \<longrightarrow>
            group_pubkey_from_commitment C vss = tweaked_key C P)"
proof (cases vss)
  case Nil
  then show ?thesis by (simp add: group_pubkey_from_commitment_def)
next
  case (Cons P rest)
  show ?thesis
  proof (cases "P = GE_inf C")
    case True
    with Cons show ?thesis by (simp add: group_pubkey_from_commitment_def infinity_def)
  next
    case False
    from taproot_ok [OF ok False] obtain tweak g where
      "taproot_tweak_and_sign C P = Inr (tweak, g)" by blast
    with Cons False show ?thesis
      by (simp add: group_pubkey_from_commitment_def infinity_def tweaked_key_def Let_def)
  qed
qed

theorem group_pubkey_from_commitment_spec_witness:
  "curve_ok toy \<and> group_pubkey_from_commitment toy [5, 3] = Inr 4 \<and>
   tweaked_key toy 5 = Inr 4 \<and> isl (group_pubkey_from_commitment toy [])"
  using group_pubkey_from_commitment_spec [OF toy_ok, of "[5, 3]"]
    group_pubkey_from_commitment_spec [OF toy_ok, of "[]"]
  by (auto simp: toy_ok toy_tweaked_key toy_fields)

text \<open>
  Claim C4. \<^verbatim>\<open>verify_share\<close> never raises: it returns a boolean on every input, and
  \<open>False\<close> for a zero share, an id that is not positive, an empty commitment list or a first
  commitment at infinity.
\<close>

theorem verify_share_never_raises:
  assumes ok: "curve_ok C"
  shows "(\<exists>b. verify_share C participant_id sec_share vss = Inr b) \<and>
         (sec_share = 0 \<or> participant_id \<le> 0 \<or> vss = [] \<or>
          (\<exists>rest. vss = GE_inf C # rest) \<longrightarrow>
            verify_share C participant_id sec_share vss = Inr False)"
proof (cases vss)
  case Nil
  then show ?thesis by (auto simp: verify_share_def)
next
  case (Cons P rest)
  show ?thesis
  proof (cases "P = GE_inf C")
    case True
    with Cons show ?thesis by (auto simp: verify_share_def infinity_def)
  next
    case False
    from taproot_ok [OF ok False] obtain tweak g where
      "taproot_tweak_and_sign C P = Inr (tweak, g)" by blast
    with Cons False show ?thesis
      by (auto simp: verify_share_def infinity_def Let_def)
  qed
qed

theorem verify_share_never_raises_witness:
  "curve_ok toy \<and> verify_share toy 1 0 [5, 3] = Inr False \<and>
   verify_share toy 0 1 [5, 3] = Inr False \<and> verify_share toy 1 1 [] = Inr False \<and>
   verify_share toy 1 1 [0, 3] = Inr False \<and> verify_share toy 1 2 [5, 3] = Inr False"
  using verify_share_never_raises [OF toy_ok, of 1 0 "[5, 3]"]
    verify_share_never_raises [OF toy_ok, of 0 1 "[5, 3]"]
    verify_share_never_raises [OF toy_ok, of 1 1 "[]"]
    verify_share_never_raises [OF toy_ok, of 1 1 "[0, 3]"]
  by (simp add: toy_ok toy_fields verify_share_def taproot_tweak_and_sign_def bit1.Rep_numeral
        from_bytes_wrapping_def int_from_bytes_def infinity_def eval_point_poly_def Scalar_def)

section \<open>Polynomials with more roots than coefficients\<close>


lemma sdiv_eval: "peval cs x = peval cs a + (x - a) * peval (sdiv a cs) x"
proof (induction a cs rule: sdiv.induct)
  case (1 a)
  show ?case by simp
next
  case (2 a c)
  show ?case by simp
next
  case (3 a c c' cs)
  let ?cs = "c' # cs"
  have "peval (c # ?cs) x = c + x * peval ?cs x" by simp
  also have "\<dots> = c + x * (peval ?cs a + (x - a) * peval (sdiv a ?cs) x)"
    using "3.IH" by simp
  also have "\<dots> = (c + a * peval ?cs a) + (x - a) * (peval ?cs a + x * peval (sdiv a ?cs) x)"
    by (simp add: algebra_simps)
  also have "\<dots> = peval (c # ?cs) a + (x - a) * peval (sdiv a (c # ?cs)) x"
    by simp
  finally show ?case .
qed

lemma length_sdiv: "length (sdiv a cs) = length cs - 1"
  by (induction a cs rule: sdiv.induct) simp_all

lemma poly_roots:
  assumes pr: "prime_order p"
  shows "length cs \<le> length xs \<Longrightarrow> distinct (map (\<lambda>x. x mod p) xs) \<Longrightarrow>
         (\<forall>x\<in>set xs. p dvd peval cs x) \<Longrightarrow> p dvd peval cs y"
proof (induction xs arbitrary: cs y)
  case Nil
  then show ?case by simp
next
  case (Cons a xs)
  let ?q = "sdiv a cs"
  have lq: "length ?q \<le> length xs" using Cons.prems(1) by (simp add: length_sdiv)
  have dq: "distinct (map (\<lambda>x. x mod p) xs)" using Cons.prems(2) by simp
  have ra: "p dvd peval cs a" using Cons.prems(3) by simp
  have na: "a mod p \<notin> (\<lambda>x. x mod p) ` set xs" using Cons.prems(2) by simp
  have rq: "\<forall>x\<in>set xs. p dvd peval ?q x"
  proof
    fix x assume x: "x \<in> set xs"
    with Cons.prems(3) have "p dvd peval cs x" by simp
    from this ra have "p dvd peval cs x - peval cs a" by (rule dvd_diff)
    moreover have "peval cs x - peval cs a = (x - a) * peval ?q x"
      using sdiv_eval [of cs x a] by simp
    ultimately have "p dvd (x - a) * peval ?q x" by simp
    with pr have "p dvd x - a \<or> p dvd peval ?q x" by (rule prime_order_dvd_mult)
    moreover have "\<not> p dvd x - a"
    proof
      assume "p dvd x - a"
      then have "x mod p = a mod p" by (simp add: mod_eq_dvd_iff)
      moreover from x have "x mod p \<in> (\<lambda>x. x mod p) ` set xs" by (rule imageI)
      ultimately have "a mod p \<in> (\<lambda>x. x mod p) ` set xs" by simp
      with na show False by simp
    qed
    ultimately show "p dvd peval ?q x" by simp
  qed
  from Cons.IH [OF lq dq rq] have "p dvd peval ?q y" .
  then have "p dvd (y - a) * peval ?q y" by simp
  with ra have "p dvd peval cs a + (y - a) * peval ?q y" by (rule dvd_add)
  then show ?case using sdiv_eval [of cs y a] by simp
qed

lemma peval_padd: "peval (padd xs ys) x = peval xs x + peval ys x"
  by (induction xs ys rule: padd.induct) (simp_all add: algebra_simps)

lemma length_padd: "length (padd xs ys) = max (length xs) (length ys)"
  by (induction xs ys rule: padd.induct) simp_all

lemma peval_scale: "peval (map ((*) c) cs) x = c * peval cs x"
  by (induction cs) (simp_all add: algebra_simps)

lemma poly_deg_lt_peval: "length cs \<le> m \<Longrightarrow> poly_deg_lt m (peval cs)"
  unfolding poly_deg_lt_def by blast

lemma poly_deg_lt_mono: "poly_deg_lt m F \<Longrightarrow> m \<le> m' \<Longrightarrow> poly_deg_lt m' F"
  unfolding poly_deg_lt_def by (meson order_trans)

lemma poly_deg_lt_const: "poly_deg_lt (Suc m) (\<lambda>x. c)"
proof -
  have "length [c] \<le> Suc m \<and> (\<forall>x. c = peval [c] x)" by simp
  then show ?thesis unfolding poly_deg_lt_def by blast
qed

lemma poly_deg_lt_zero: "poly_deg_lt m (\<lambda>x. 0)"
proof -
  have "length ([] :: int list) \<le> m \<and> (\<forall>x. 0 = peval [] x)" by simp
  then show ?thesis unfolding poly_deg_lt_def by blast
qed

lemma poly_deg_lt_add:
  assumes "poly_deg_lt m F" "poly_deg_lt m G"
  shows "poly_deg_lt m (\<lambda>x. F x + G x)"
proof -
  from assms obtain fs gs where
    fs: "length fs \<le> m" "\<forall>x. F x = peval fs x" and
    gs: "length gs \<le> m" "\<forall>x. G x = peval gs x"
    unfolding poly_deg_lt_def by blast
  have "length (padd fs gs) \<le> m \<and> (\<forall>x. F x + G x = peval (padd fs gs) x)"
    using fs gs by (simp add: length_padd peval_padd)
  then show ?thesis unfolding poly_deg_lt_def by blast
qed

lemma poly_deg_lt_scale:
  assumes "poly_deg_lt m F"
  shows "poly_deg_lt m (\<lambda>x. c * F x)"
proof -
  from assms obtain fs where fs: "length fs \<le> m" "\<forall>x. F x = peval fs x"
    unfolding poly_deg_lt_def by blast
  have "length (map ((*) c) fs) \<le> m \<and> (\<forall>x. c * F x = peval (map ((*) c) fs) x)"
    using fs by (simp add: peval_scale)
  then show ?thesis unfolding poly_deg_lt_def by blast
qed

lemma poly_deg_lt_linear:
  assumes "poly_deg_lt m F"
  shows "poly_deg_lt (Suc m) (\<lambda>x. (j - x) * F x)"
proof -
  from assms obtain fs where fs: "length fs \<le> m" "\<forall>x. F x = peval fs x"
    unfolding poly_deg_lt_def by blast
  let ?cs = "padd (map ((*) j) fs) (0 # map ((*) (- 1)) fs)"
  have "peval ?cs x = (j - x) * F x" for x
    using fs(2) by (simp add: peval_padd peval_scale algebra_simps)
  moreover have "length ?cs \<le> Suc m" using fs(1) by (simp add: length_padd)
  ultimately have "length ?cs \<le> Suc m \<and> (\<forall>x. (j - x) * F x = peval ?cs x)" by simp
  then show ?thesis unfolding poly_deg_lt_def by blast
qed

lemma poly_deg_lt_prod_linear:
  "poly_deg_lt (Suc (length js)) (\<lambda>x. prod_list (map (\<lambda>j. j - x) js))"
proof (induction js)
  case Nil
  show ?case using poly_deg_lt_const [of 0 1] by simp
next
  case (Cons j js)
  from poly_deg_lt_linear [OF Cons.IH, of j] show ?case by simp
qed

lemma poly_deg_lt_sum_list:
  "(\<forall>i\<in>set xs. poly_deg_lt m (F i)) \<Longrightarrow> poly_deg_lt m (\<lambda>x. sum_list (map (\<lambda>i. F i x) xs))"
proof (induction xs)
  case Nil
  show ?case using poly_deg_lt_zero by simp
next
  case (Cons a xs)
  then have "poly_deg_lt m (F a)" "poly_deg_lt m (\<lambda>x. sum_list (map (\<lambda>i. F i x) xs))"
    by simp_all
  from poly_deg_lt_add [OF this] show ?case by simp
qed

lemma poly_deg_lt_roots:
  assumes pr: "prime_order p" and dg: "poly_deg_lt (length xs) F"
    and ds: "distinct (map (\<lambda>x. x mod p) xs)" and rt: "\<forall>x\<in>set xs. p dvd F x"
  shows "p dvd F y"
proof -
  from dg obtain cs where cs: "length cs \<le> length xs" "\<forall>x. F x = peval cs x"
    unfolding poly_deg_lt_def by blast
  from rt cs(2) have "\<forall>x\<in>set xs. p dvd peval cs x" by simp
  from poly_roots [OF pr cs(1) ds this, of y] cs(2) show ?thesis by simp
qed

section \<open>Lagrange interpolation at zero, modulo a prime\<close>


lemma sum_list_single:
  "distinct xs \<Longrightarrow> k \<in> set xs \<Longrightarrow> (\<forall>i\<in>set xs. i \<noteq> k \<longrightarrow> f i = (0::int)) \<Longrightarrow>
   sum_list (map f xs) = f k"
proof (induction xs)
  case Nil
  then show ?case by simp
next
  case (Cons a xs)
  show ?case
  proof (cases "a = k")
    case True
    with Cons.prems have "\<forall>i\<in>set xs. f i = 0" by auto
    then have "sum_list (map f xs) = 0" by (induction xs) simp_all
    with True show ?thesis by simp
  next
    case False
    with Cons.prems have "f a = 0" "k \<in> set xs" "distinct xs"
      "\<forall>i\<in>set xs. i \<noteq> k \<longrightarrow> f i = 0" by auto
    with Cons.IH show ?thesis by simp
  qed
qed

lemma lagrange_basis_at_node:
  assumes "k \<in> set ids"
  shows "prod_list (map (\<lambda>j. j - k) (filter (\<lambda>j. j \<noteq> i) ids)) =
         (if i = k then lag_den ids k else 0)"
proof (cases "i = k")
  case True
  then show ?thesis by (simp add: lag_den_def)
next
  case False
  with assms have "k \<in> set (filter (\<lambda>j. j \<noteq> i) ids)" by simp
  then have "k - k \<in> (\<lambda>j. j - k) ` set (filter (\<lambda>j. j \<noteq> i) ids)" by (rule imageI)
  then have "0 \<in> set (map (\<lambda>j. j - k) (filter (\<lambda>j. j \<noteq> i) ids))" by simp
  then have "prod_list (map (\<lambda>j. j - k) (filter (\<lambda>j. j \<noteq> i) ids)) = 0"
    by (simp only: prod_list_zero_iff)
  with False show ?thesis by simp
qed

lemma distinct_mod_imp_distinct: "distinct (map (\<lambda>i. i mod p) ids) \<Longrightarrow> distinct (ids :: int list)"
  by (rule distinct_map [THEN iffD1, THEN conjunct1])

lemma lagrange_interpolation:
  assumes pr: "prime_order p"
    and ds: "distinct (map (\<lambda>i. i mod p) ids)"
    and dg: "poly_deg_lt (length ids) h"
    and inv: "\<forall>i\<in>set ids. (u i * lag_den ids i) mod p = 1"
  shows "(\<Sum>i\<leftarrow>ids. h i * u i * lag_num ids i) mod p = h 0 mod p"
proof -
  let ?B = "\<lambda>i x. prod_list (map (\<lambda>j. j - x) (filter (\<lambda>j. j \<noteq> i) ids))"
  let ?T = "\<lambda>i x. (h i * u i) * ?B i x"
  let ?L = "\<lambda>x. sum_list (map (\<lambda>i. ?T i x) ids)"
  let ?R = "\<lambda>x. ?L x + (- 1) * h x"
  from ds have di: "distinct ids" by (rule distinct_mod_imp_distinct)
  have tdeg: "poly_deg_lt (length ids) (?T i)" if i: "i \<in> set ids" for i
  proof -
    from i have "length (filter (\<lambda>j. j \<noteq> i) ids) < length ids"
      by (intro length_filter_less [of i]) simp_all
    then have "Suc (length (filter (\<lambda>j. j \<noteq> i) ids)) \<le> length ids" by simp
    with poly_deg_lt_prod_linear [of "filter (\<lambda>j. j \<noteq> i) ids"]
    have "poly_deg_lt (length ids) (?B i)" by (rule poly_deg_lt_mono)
    then show ?thesis by (rule poly_deg_lt_scale)
  qed
  then have "\<forall>i\<in>set ids. poly_deg_lt (length ids) (?T i)" by blast
  then have L: "poly_deg_lt (length ids) ?L" by (rule poly_deg_lt_sum_list)
  have "poly_deg_lt (length ids) (\<lambda>x. (- 1) * h x)" using dg by (rule poly_deg_lt_scale)
  with L have R: "poly_deg_lt (length ids) ?R" by (rule poly_deg_lt_add)
  have root: "p dvd ?R k" if k: "k \<in> set ids" for k
  proof -
    have "?L k = sum_list (map (\<lambda>i. if i = k then h k * u k * lag_den ids k else 0) ids)"
      by (rule arg_cong [where f = sum_list], rule map_cong [OF refl])
         (simp add: lagrange_basis_at_node [OF k])
    also have "\<dots> = h k * u k * lag_den ids k"
      using sum_list_single [OF di k, of "\<lambda>i. if i = k then h k * u k * lag_den ids k else 0"]
      by simp
    finally have Lk: "?L k = h k * u k * lag_den ids k" .
    from inv k have "(u k * lag_den ids k) mod p = 1" by blast
    moreover from pr have "1 < p" by (simp add: prime_order_def)
    ultimately have "(u k * lag_den ids k) mod p = 1 mod p" by simp
    then have "p dvd u k * lag_den ids k - 1" by (simp add: mod_eq_dvd_iff)
    then have "p dvd h k * (u k * lag_den ids k - 1)" by (rule dvd_mult)
    moreover have "?R k = h k * (u k * lag_den ids k - 1)"
      unfolding Lk by (simp add: algebra_simps)
    ultimately show ?thesis by simp
  qed
  then have "\<forall>k\<in>set ids. p dvd ?R k" by blast
  from poly_deg_lt_roots [OF pr R ds this, of 0] have "p dvd ?R 0" .
  moreover have "?L 0 = (\<Sum>i\<leftarrow>ids. h i * u i * lag_num ids i)"
    by (simp add: lag_num_def)
  ultimately have "p dvd (\<Sum>i\<leftarrow>ids. h i * u i * lag_num ids i) - h 0" by simp
  then show ?thesis by (simp add: mod_eq_dvd_iff)
qed

section \<open>The Lagrange coefficient computed by the code\<close>


lemma modinv_scalar_zero: "modinv_scalar C 0 = Inl ZeroDivisor"
  by (simp add: modinv_scalar_def)

lemma prime_order_not_dvd:
  assumes "prime_order p" "0 < x" "x < p"
  shows "\<not> p dvd x"
  using assms by (simp add: zdvd_not_zless)

lemma modinv_scalar_Inr:
  assumes ok: "curve_ok C" and x: "0 < x" "x < ORDER C"
  shows "\<exists>y. modinv_scalar C x = Inr y \<and> 0 \<le> y \<and> y < ORDER C \<and> (x * y) mod ORDER C = 1"
proof -
  let ?p = "ORDER C"
  from ok have pr: "prime_order ?p" by (rule curve_okD(1))
  from ok have p1: "1 < ?p" by (rule curve_order_gt1)
  from pr x have "\<not> ?p dvd x" by (rule prime_order_not_dvd)
  with pr have "coprime x ?p" by (rule prime_order_coprime)
  with p1 x obtain y where y: "pow_inv x ?p = Some y" "0 \<le> y" "y < ?p" "(x * y) mod ?p = 1"
    using pow_inv_Some [of ?p x] by auto
  then have "modinv_scalar C x = Inr y" using x by (simp add: modinv_scalar_def Scalar_def)
  with y show ?thesis by blast
qed

lemma prime_order_dvd_prod_list:
  assumes pr: "prime_order p"
  shows "p dvd prod_list xs \<longleftrightarrow> (\<exists>x\<in>set xs. p dvd x)"
proof (induction xs)
  case Nil
  from pr have "1 < p" by (simp add: prime_order_def)
  then have "\<not> p dvd 1" by (simp add: zdvd_not_zless)
  then show ?case by simp
next
  case (Cons a xs)
  have "p dvd a * prod_list xs \<longleftrightarrow> p dvd a \<or> p dvd prod_list xs"
    using prime_order_dvd_mult [OF pr, of a "prod_list xs"] by auto
  with Cons.IH show ?case by simp
qed

lemma lag_den_dvd_iff:
  assumes pr: "prime_order p"
  shows "p dvd lag_den ids tg \<longleftrightarrow> (\<exists>j\<in>set ids. j \<noteq> tg \<and> j mod p = tg mod p)"
  unfolding lag_den_def prime_order_dvd_prod_list [OF pr]
  by (auto simp: mod_eq_dvd_iff)

lemma lagrange_loop_eq:
  assumes p1: "1 < ORDER C"
  shows "0 \<le> num \<Longrightarrow> num < ORDER C \<Longrightarrow> 0 \<le> denom \<Longrightarrow> denom < ORDER C \<Longrightarrow>
         lagrange_loop C tg (tg mod ORDER C) ids (num, denom) =
           ((num * lag_num ids tg) mod ORDER C, (denom * lag_den ids tg) mod ORDER C)"
proof (induction ids arbitrary: num denom)
  case Nil
  then show ?case by (simp add: lag_num_def lag_den_def)
next
  case (Cons j ids)
  let ?p = "ORDER C"
  show ?case
  proof (cases "j = tg")
    case True
    with Cons show ?thesis by (simp add: lag_num_def lag_den_def)
  next
    case False
    let ?n = "(num * (j mod ?p)) mod ?p"
    let ?d = "(denom * ((j mod ?p - tg mod ?p) mod ?p)) mod ?p"
    from p1 have r: "0 \<le> ?n" "?n < ?p" "0 \<le> ?d" "?d < ?p" by simp_all
    have n: "(?n * lag_num ids tg) mod ?p = (num * lag_num (j # ids) tg) mod ?p"
      using False by (simp add: lag_num_def mod_simps mult.assoc)
    have d: "(?d * lag_den ids tg) mod ?p = (denom * lag_den (j # ids) tg) mod ?p"
      using False by (simp add: lag_den_def mod_simps mult.assoc)
    from False have "lagrange_loop C tg (tg mod ?p) (j # ids) (num, denom) =
        lagrange_loop C tg (tg mod ?p) ids (?n, ?d)"
      by (simp add: Scalar_def Let_def)
    also have "\<dots> = ((?n * lag_num ids tg) mod ?p, (?d * lag_den ids tg) mod ?p)"
      by (rule Cons.IH [OF r])
    finally show ?thesis by (simp only: n d)
  qed
qed

lemma lagrange_at_zero_eq:
  assumes ok: "curve_ok C"
  shows "lagrange_at_zero C ids tg =
     (if tg \<notin> set ids \<or> \<not> distinct ids then Inl InconsistentInput
      else (case modinv_scalar C (lag_den ids tg mod ORDER C) of
              Inl e \<Rightarrow> Inl e
            | Inr y \<Rightarrow> Inr ((lag_num ids tg mod ORDER C * y) mod ORDER C)))"
proof -
  from ok have p1: "1 < ORDER C" by (rule curve_order_gt1)
  then have one: "(1::int) mod ORDER C = 1" by simp
  have "lagrange_loop C tg (tg mod ORDER C) ids (1, 1) =
          ((1 * lag_num ids tg) mod ORDER C, (1 * lag_den ids tg) mod ORDER C)"
    using p1 by (intro lagrange_loop_eq) simp_all
  then show ?thesis
    by (simp add: lagrange_at_zero_def Scalar_def one length_remdups_eq)
qed

lemma lagrange_at_zero_Inr:
  assumes ok: "curve_ok C" and tg: "tg \<in> set ids" and di: "distinct ids"
    and nd: "\<not> ORDER C dvd lag_den ids tg"
  shows "\<exists>u. (u * lag_den ids tg) mod ORDER C = 1 \<and>
             lagrange_at_zero C ids tg = Inr ((lag_num ids tg * u) mod ORDER C)"
proof -
  let ?p = "ORDER C"
  from ok have p1: "1 < ?p" by (rule curve_order_gt1)
  from nd have "lag_den ids tg mod ?p \<noteq> 0" by (simp add: dvd_eq_mod_eq_0)
  moreover from p1 have "0 \<le> lag_den ids tg mod ?p" "lag_den ids tg mod ?p < ?p" by simp_all
  ultimately have "0 < lag_den ids tg mod ?p" by linarith
  from modinv_scalar_Inr [OF ok this \<open>lag_den ids tg mod ?p < ?p\<close>] obtain u where
    u: "modinv_scalar C (lag_den ids tg mod ?p) = Inr u" "(lag_den ids tg mod ?p * u) mod ?p = 1"
    by blast
  from u(2) have "(u * lag_den ids tg) mod ?p = 1" by (simp add: mod_simps mult.commute)
  moreover have "lagrange_at_zero C ids tg = Inr ((lag_num ids tg * u) mod ?p)"
    using tg di u(1) by (simp add: lagrange_at_zero_eq [OF ok] mod_simps)
  ultimately show ?thesis by blast
qed

lemma lagrange_at_zero_ZeroDivisor:
  assumes ok: "curve_ok C" and tg: "tg \<in> set ids" and di: "distinct ids"
    and nd: "ORDER C dvd lag_den ids tg"
  shows "lagrange_at_zero C ids tg = Inl ZeroDivisor"
proof -
  from nd have "lag_den ids tg mod ORDER C = 0" by (simp add: dvd_eq_mod_eq_0)
  with tg di show ?thesis
    by (simp add: lagrange_at_zero_eq [OF ok] modinv_scalar_zero)
qed

lemma mod_regroup:
  "((s * acc) mod p * (e * D)) mod p = ((s * e) mod p * ((acc * D) mod p)) mod (p::int)"
proof -
  have "((s * acc) mod p * (e * D)) mod p = ((s * acc) * (e * D)) mod p"
    by (rule mod_mult_left_eq)
  also have "(s * acc) * (e * D) = (s * e) * (acc * D)" by (simp add: ac_simps)
  also have "((s * e) * (acc * D)) mod p = ((s * e) mod p * ((acc * D) mod p)) mod p"
    by (rule mod_mult_eq [symmetric])
  finally show ?thesis .
qed

lemma mod_regroup2:
  "((a * y) mod p * b) mod p = (a mod p * ((b * y) mod p)) mod (p::int)"
proof -
  have "((a * y) mod p * b) mod p = ((a * y) * b) mod p" by (rule mod_mult_left_eq)
  also have "(a * y) * b = a * (b * y)" by (simp add: ac_simps)
  also have "(a * (b * y)) mod p = (a mod p * ((b * y) mod p)) mod p"
    by (rule mod_mult_eq [symmetric])
  finally show ?thesis .
qed

lemma mod_cancel:
  assumes pr: "prime_order p" and nd: "\<not> p dvd d"
    and eq: "(a * d) mod p = (b * d) mod p"
  shows "a mod p = b mod p"
proof -
  from eq have "p dvd a * d - b * d" by (simp add: mod_eq_dvd_iff)
  then have "p dvd (a - b) * d" by (simp add: algebra_simps)
  with pr have "p dvd a - b \<or> p dvd d" by (rule prime_order_dvd_mult)
  with nd show ?thesis by (simp add: mod_eq_dvd_iff)
qed

lemma scalar_div_Some:
  assumes ok: "curve_ok C" and nd: "\<not> ORDER C dvd b"
  shows "\<exists>q. scalar_div C a b = Some q \<and> 0 \<le> q \<and> q < ORDER C \<and>
             (q * b) mod ORDER C = a mod ORDER C"
proof -
  let ?p = "ORDER C"
  from ok have p1: "1 < ?p" by (rule curve_order_gt1)
  from ok have pr: "prime_order ?p" by (rule curve_okD(1))
  from nd have "\<not> ?p dvd b mod ?p" by (simp add: dvd_mod_iff)
  with pr have "coprime (b mod ?p) ?p" by (rule prime_order_coprime)
  with p1 obtain y where y: "pow_inv (b mod ?p) ?p = Some y" "(b mod ?p * y) mod ?p = 1"
    using pow_inv_Some [of ?p "b mod ?p"] by auto
  from y(2) have by1: "(b * y) mod ?p = 1" by (simp add: mod_simps)
  have "((a * y) mod ?p * b) mod ?p = (a mod ?p * ((b * y) mod ?p)) mod ?p"
    by (rule mod_regroup2)
  also have "\<dots> = a mod ?p" by (simp add: by1)
  finally have "((a * y) mod ?p * b) mod ?p = a mod ?p" .
  moreover have "scalar_div C a b = Some ((a * y) mod ?p)"
    using y(1) by (simp add: scalar_div_def)
  moreover have "0 \<le> (a * y) mod ?p" "(a * y) mod ?p < ?p" using p1 by simp_all
  ultimately show ?thesis by blast
qed

lemma scalar_div_None:
  assumes ok: "curve_ok C" and d: "ORDER C dvd b"
  shows "scalar_div C a b = None"
proof (cases "pow_inv (b mod ORDER C) (ORDER C)")
  case None
  then show ?thesis by (simp add: scalar_div_def)
next
  case (Some y)
  from ok have p1: "1 < ORDER C" by (rule curve_order_gt1)
  from d have "b mod ORDER C = 0" by (simp add: dvd_eq_mod_eq_0)
  with pow_inv_sound [OF p1 Some] have False by simp
  then show ?thesis ..
qed

lemma lagrange_product_mult:
  assumes ok: "curve_ok C"
  shows "(\<forall>j\<in>set js. \<not> ORDER C dvd j - tg) \<Longrightarrow>
     \<exists>v. foldr (\<lambda>j acc. case (scalar_div C j (j - tg), acc) of
                             (Some q, Some a) \<Rightarrow> Some ((q * a) mod ORDER C)
                           | _ \<Rightarrow> None) js (Some (1 mod ORDER C)) = Some v \<and>
         0 \<le> v \<and> v < ORDER C \<and>
         (v * prod_list (map (\<lambda>j. j - tg) js)) mod ORDER C = prod_list js mod ORDER C"
proof (induction js)
  case Nil
  from ok have "1 < ORDER C" by (rule curve_order_gt1)
  then show ?case by simp
next
  case (Cons j js)
  let ?p = "ORDER C"
  let ?D = "prod_list (map (\<lambda>j. j - tg) js)"
  from ok have p1: "1 < ?p" by (rule curve_order_gt1)
  from Cons.prems have nd: "\<not> ?p dvd j - tg" by simp
  from Cons obtain v where
    v: "foldr (\<lambda>j acc. case (scalar_div C j (j - tg), acc) of
                             (Some q, Some a) \<Rightarrow> Some ((q * a) mod ORDER C)
                           | _ \<Rightarrow> None) js (Some (1 mod ORDER C)) = Some v"
       "(v * ?D) mod ?p = prod_list js mod ?p" by auto
  from scalar_div_Some [OF ok nd, of j] obtain q where
    q: "scalar_div C j (j - tg) = Some q" "(q * (j - tg)) mod ?p = j mod ?p" by blast
  have "((q * v) mod ?p * ((j - tg) * ?D)) mod ?p =
        ((q * (j - tg)) mod ?p * ((v * ?D) mod ?p)) mod ?p"
    by (rule mod_regroup)
  also have "\<dots> = ((j mod ?p) * (prod_list js mod ?p)) mod ?p"
    by (simp only: q(2) v(2))
  also have "\<dots> = (j * prod_list js) mod ?p" by (rule mod_mult_eq)
  finally have "((q * v) mod ?p * prod_list (map (\<lambda>j. j - tg) (j # js))) mod ?p =
                prod_list (j # js) mod ?p" by simp
  moreover have "0 \<le> (q * v) mod ?p" "(q * v) mod ?p < ?p" using p1 by simp_all
  moreover have "foldr (\<lambda>j acc. case (scalar_div C j (j - tg), acc) of
                             (Some q, Some a) \<Rightarrow> Some ((q * a) mod ORDER C)
                           | _ \<Rightarrow> None) (j # js) (Some (1 mod ORDER C)) = Some ((q * v) mod ?p)"
    using v(1) q(1) by simp
  ultimately show ?case by blast
qed

lemma lagrange_at_zero_product:
  assumes ok: "curve_ok C" and tg: "tg \<in> set ids" and di: "distinct ids"
    and nc: "\<not> (\<exists>j\<in>set ids. j \<noteq> tg \<and> j mod ORDER C = tg mod ORDER C)"
  shows "\<exists>lam. lagrange_product C ids tg = Some lam \<and> lagrange_at_zero C ids tg = Inr lam \<and>
               0 \<le> lam \<and> lam < ORDER C \<and>
               (lam * lag_den ids tg) mod ORDER C = lag_num ids tg mod ORDER C"
proof -
  let ?p = "ORDER C"
  from ok have p1: "1 < ?p" by (rule curve_order_gt1)
  from ok have pr: "prime_order ?p" by (rule curve_okD(1))
  from nc have nd: "\<not> ?p dvd lag_den ids tg" by (simp add: lag_den_dvd_iff [OF pr])
  from lagrange_at_zero_Inr [OF ok tg di nd] obtain u where
    u: "(u * lag_den ids tg) mod ?p = 1"
       "lagrange_at_zero C ids tg = Inr ((lag_num ids tg * u) mod ?p)" by blast
  let ?lam = "(lag_num ids tg * u) mod ?p"
  let ?js = "filter (\<lambda>j. j \<noteq> tg) ids"
  from nc have "\<forall>j\<in>set ?js. \<not> ?p dvd j - tg" by (auto simp: mod_eq_dvd_iff)
  from lagrange_product_mult [OF ok this] obtain v where
    v: "lagrange_product C ids tg = Some v" "0 \<le> v" "v < ?p"
       "(v * lag_den ids tg) mod ?p = lag_num ids tg mod ?p"
    unfolding lagrange_product_def lag_den_def lag_num_def by blast
  have "(?lam * lag_den ids tg) mod ?p =
        (lag_num ids tg mod ?p * ((lag_den ids tg * u) mod ?p)) mod ?p"
    by (rule mod_regroup2)
  also have "\<dots> = (lag_num ids tg mod ?p * ((u * lag_den ids tg) mod ?p)) mod ?p"
    by (simp only: mult.commute)
  also have "\<dots> = lag_num ids tg mod ?p" by (simp add: u(1))
  finally have "(?lam * lag_den ids tg) mod ?p = (v * lag_den ids tg) mod ?p"
    by (simp only: v(4))
  from mod_cancel [OF pr nd this] have "?lam mod ?p = v mod ?p" .
  with v(2,3) have "?lam = v" by simp
  with u(2) v show ?thesis by simp
qed

lemma lagrange_product_None:
  assumes ok: "curve_ok C"
    and c: "\<exists>j\<in>set ids. j \<noteq> tg \<and> j mod ORDER C = tg mod ORDER C"
  shows "lagrange_product C ids tg = None"
proof -
  let ?f = "\<lambda>j acc. case (scalar_div C j (j - tg), acc) of
                      (Some q, Some a) \<Rightarrow> Some ((q * a) mod ORDER C)
                    | _ \<Rightarrow> None"
  have "(\<exists>j\<in>set js. ORDER C dvd j - tg) \<Longrightarrow> foldr ?f js (Some (1 mod ORDER C)) = None" for js
  proof (induction js)
    case Nil
    then show ?case by simp
  next
    case (Cons j js)
    show ?case
    proof (cases "ORDER C dvd j - tg")
      case True
      from scalar_div_None [OF ok True] show ?thesis by simp
    next
      case False
      with Cons have "foldr ?f js (Some (1 mod ORDER C)) = None" by simp
      then show ?thesis by (simp split: option.splits)
    qed
  qed
  moreover from c have "\<exists>j\<in>set (filter (\<lambda>j. j \<noteq> tg) ids). ORDER C dvd j - tg"
    by (auto simp: mod_eq_dvd_iff)
  ultimately show ?thesis unfolding lagrange_product_def by blast
qed

lemma modinv_scalar_isl_iff:
  assumes ok: "curve_ok C" and x: "0 \<le> x" "x < ORDER C"
  shows "(modinv_scalar C x = Inl ZeroDivisor \<longleftrightarrow> x = 0) \<and>
         (isl (modinv_scalar C x) \<longleftrightarrow> x = 0) \<and>
         (x \<noteq> 0 \<longrightarrow> (\<exists>y. modinv_scalar C x = Inr y \<and> (x * y) mod ORDER C = 1))"
proof (cases "x = 0")
  case True
  then show ?thesis by (simp add: modinv_scalar_zero)
next
  case False
  with x have "0 < x" by simp
  from modinv_scalar_Inr [OF ok this x(2)] obtain y where
    "modinv_scalar C x = Inr y" "(x * y) mod ORDER C = 1" by blast
  with False show ?thesis by auto
qed

text \<open>
  Claim C6, amended. \<^verbatim>\<open>lagrange_at_zero\<close> fails with \<open>InconsistentInput\<close> if the target is
  not among the ids or the ids contain duplicates. Otherwise it computes the running
  numerator and denominator products and finishes with one modular inverse: if another id
  is congruent to the target modulo the order, the denominator is zero, the product of
  quotients has no value and the call fails with \<open>ZeroDivisor\<close>; if none is, it returns the product of the quotients
  \<open>j / (j - target_id)\<close> over the other ids, which then has a value. The modular inverse of a scalar fails, with
  \<open>ZeroDivisor\<close>, exactly on zero.
\<close>

theorem lagrange_at_zero_spec:
  assumes ok: "curve_ok C"
  shows "(target_id \<notin> set ids \<or> \<not> distinct ids \<longrightarrow>
            lagrange_at_zero C ids target_id = Inl InconsistentInput) \<and>
         (target_id \<in> set ids \<and> distinct ids \<longrightarrow>
            lagrange_at_zero C ids target_id =
              (case modinv_scalar C (lag_den ids target_id mod ORDER C) of
                 Inl e \<Rightarrow> Inl e
               | Inr denom_inv \<Rightarrow>
                   Inr ((lag_num ids target_id mod ORDER C * denom_inv) mod ORDER C)) \<and>
            (if \<exists>j\<in>set ids. j \<noteq> target_id \<and> j mod ORDER C = target_id mod ORDER C
             then lagrange_product C ids target_id = None \<and>
                  lagrange_at_zero C ids target_id = Inl ZeroDivisor
             else (\<exists>lam. lagrange_product C ids target_id = Some lam \<and>
                     lagrange_at_zero C ids target_id = Inr lam))) \<and>
         (0 \<le> x \<and> x < ORDER C \<longrightarrow>
            (modinv_scalar C x = Inl ZeroDivisor \<longleftrightarrow> x = 0) \<and>
            (isl (modinv_scalar C x) \<longleftrightarrow> x = 0) \<and>
            (x \<noteq> 0 \<longrightarrow> (\<exists>y. modinv_scalar C x = Inr y \<and> (x * y) mod ORDER C = 1)))"
proof -
  from ok have pr: "prime_order (ORDER C)" by (rule curve_okD(1))
  have c1: "target_id \<notin> set ids \<or> \<not> distinct ids \<longrightarrow>
            lagrange_at_zero C ids target_id = Inl InconsistentInput"
    by (simp add: lagrange_at_zero_eq [OF ok])
  have c2: "target_id \<in> set ids \<and> distinct ids \<longrightarrow>
            lagrange_at_zero C ids target_id =
              (case modinv_scalar C (lag_den ids target_id mod ORDER C) of
                 Inl e \<Rightarrow> Inl e
               | Inr denom_inv \<Rightarrow>
                   Inr ((lag_num ids target_id mod ORDER C * denom_inv) mod ORDER C)) \<and>
            (if \<exists>j\<in>set ids. j \<noteq> target_id \<and> j mod ORDER C = target_id mod ORDER C
             then lagrange_product C ids target_id = None \<and>
                  lagrange_at_zero C ids target_id = Inl ZeroDivisor
             else (\<exists>lam. lagrange_product C ids target_id = Some lam \<and>
                     lagrange_at_zero C ids target_id = Inr lam))"
  proof (intro impI conjI)
    assume a: "target_id \<in> set ids \<and> distinct ids"
    then show "lagrange_at_zero C ids target_id =
        (case modinv_scalar C (lag_den ids target_id mod ORDER C) of
           Inl e \<Rightarrow> Inl e
         | Inr denom_inv \<Rightarrow> Inr ((lag_num ids target_id mod ORDER C * denom_inv) mod ORDER C))"
      by (simp add: lagrange_at_zero_eq [OF ok])
    show "if \<exists>j\<in>set ids. j \<noteq> target_id \<and> j mod ORDER C = target_id mod ORDER C
          then lagrange_product C ids target_id = None \<and>
               lagrange_at_zero C ids target_id = Inl ZeroDivisor
          else (\<exists>lam. lagrange_product C ids target_id = Some lam \<and>
                  lagrange_at_zero C ids target_id = Inr lam)"
    proof (cases "\<exists>j\<in>set ids. j \<noteq> target_id \<and> j mod ORDER C = target_id mod ORDER C")
      case True
      then have "ORDER C dvd lag_den ids target_id" by (simp add: lag_den_dvd_iff [OF pr])
      with a have "lagrange_at_zero C ids target_id = Inl ZeroDivisor"
        by (intro lagrange_at_zero_ZeroDivisor [OF ok]) simp_all
      moreover from True have "lagrange_product C ids target_id = None"
        by (rule lagrange_product_None [OF ok])
      ultimately show ?thesis using True by simp
    next
      case False
      with a lagrange_at_zero_product [OF ok, of target_id ids]
      have "\<exists>lam. lagrange_product C ids target_id = Some lam \<and>
                  lagrange_at_zero C ids target_id = Inr lam" by blast
      with False show ?thesis by (simp only: if_False)
    qed
  qed
  have c3: "0 \<le> x \<and> x < ORDER C \<longrightarrow>
            (modinv_scalar C x = Inl ZeroDivisor \<longleftrightarrow> x = 0) \<and>
            (isl (modinv_scalar C x) \<longleftrightarrow> x = 0) \<and>
            (x \<noteq> 0 \<longrightarrow> (\<exists>y. modinv_scalar C x = Inr y \<and> (x * y) mod ORDER C = 1))"
    using modinv_scalar_isl_iff [OF ok, of x] by blast
  from c1 c2 c3 show ?thesis by (intro conjI)
qed

lemmas toy_lagrange_eval =
  toy_fields lagrange_at_zero_def modinv_scalar_def pow_inv_def egcd.simps Scalar_def Let_def

lemma toy_lagrange_123_2: "lagrange_at_zero toy [1, 2, 3] 2 = Inr 4"
  by (simp add: toy_lagrange_eval)

lemma toy_lagrange_18_1: "lagrange_at_zero toy [1, 8] 1 = Inl ZeroDivisor"
  by (simp add: toy_lagrange_eval)

theorem lagrange_at_zero_spec_witness:
  "curve_ok toy \<and> lagrange_at_zero toy [1, 2] 3 = Inl InconsistentInput \<and>
   lagrange_at_zero toy [1, 1] 1 = Inl InconsistentInput \<and>
   lagrange_product toy [1, 2, 3] 2 = Some 4 \<and> lagrange_at_zero toy [1, 2, 3] 2 = Inr 4 \<and>
   modinv_scalar toy 0 = Inl ZeroDivisor"
  using lagrange_at_zero_spec [OF toy_ok, of 3 "[1, 2]" 0]
    lagrange_at_zero_spec [OF toy_ok, of 1 "[1, 1]" 0]
    lagrange_at_zero_spec [OF toy_ok, of 2 "[1, 2, 3]" 0]
  by (simp add: toy_ok toy_fields toy_lagrange_123_2)

text \<open>
  The claim as stated fails: the ids \<open>1\<close> and \<open>8\<close> are distinct and contain the target \<open>1\<close>,
  but are congruent modulo the order \<open>7\<close> of the toy curve, and the call fails with
  \<open>ZeroDivisor\<close> instead of returning a scalar. On the real curve the ids \<open>1\<close> and \<open>n + 1\<close>
  do the same.
\<close>

theorem lagrange_at_zero_congruent_ids_counterexample:
  "curve_ok toy \<and> (1::int) \<in> set [1, 8] \<and> distinct [1, 8 :: int] \<and>
   lagrange_at_zero toy [1, 8] 1 = Inl ZeroDivisor"
  by (simp add: toy_ok toy_lagrange_18_1)

text \<open>
  Claim C10. For a single id \<open>i\<close> (in particular \<open>0 < i\<close> below the order) the Lagrange
  coefficient is \<open>1\<close>, and the reconstruction from the one pair \<open>([i], [P])\<close> returns \<open>P\<close>
  itself for every point \<open>P\<close> other than infinity, whatever the threshold was.
\<close>

theorem single_share_reconstruction:
  assumes ok: "curve_ok C"
  shows "lagrange_at_zero C [i] i = Inr 1 \<and>
         (P \<noteq> GE_inf C \<longrightarrow> group_pub_from_tweaked_pubshares C [i] [P] = Inr P)"
proof -
  let ?p = "ORDER C"
  from ok have p1: "1 < ?p" by (rule curve_order_gt1)
  have den: "lag_den [i] i = 1" and num: "lag_num [i] i = 1"
    by (simp_all add: lag_den_def lag_num_def)
  from p1 have "(0::int) < 1" "1 < ?p" by simp_all
  from modinv_scalar_Inr [OF ok this] obtain y where
    y: "modinv_scalar C 1 = Inr y" "0 \<le> y" "y < ?p" "(1 * y) mod ?p = 1" by blast
  from y(2,3,4) have "y = 1" by simp
  with y(1) p1 have lam: "lagrange_at_zero C [i] i = Inr 1"
    by (simp add: lagrange_at_zero_eq [OF ok] den num)
  have "ge_add C (GE_inf C) (ge_mul C 1 P) = P"
    by (simp only: ge_mul_one [OF ok] ge_add_inf [OF ok])
  with lam have "P \<noteq> GE_inf C \<longrightarrow> group_pub_from_tweaked_pubshares C [i] [P] = Inr P"
    by (simp add: group_pub_from_tweaked_pubshares_def infinity_def)
  with lam show ?thesis by simp
qed

theorem single_share_reconstruction_witness:
  "curve_ok toy \<and> lagrange_at_zero toy [3] 3 = Inr 1 \<and> (5 :: 7) \<noteq> GE_inf toy \<and>
   group_pub_from_tweaked_pubshares toy [3] [5] = Inr 5"
  using single_share_reconstruction [OF toy_ok, of 3 5]
  by (simp add: toy_ok toy_fields)

section \<open>Reconstruction of the group key\<close>


lemma peval_mod_cong: "peval cs (x mod p) mod p = peval cs x mod (p::int)"
proof (induction cs)
  case Nil
  show ?case by simp
next
  case (Cons c cs)
  have "(c + (x mod p) * peval cs (x mod p)) mod p = (c + x * peval cs x) mod p"
    by (intro mod_add_cong mod_mult_cong refl Cons.IH) simp
  then show ?case by simp
qed

lemma eval_scalar_poly_loop_peval:
  "eval_scalar_poly_loop C x cs (r, pw) mod ORDER C = (r + pw * peval cs x) mod ORDER C"
proof (induction cs arbitrary: r pw)
  case Nil
  show ?case by simp
next
  case (Cons c cs)
  let ?p = "ORDER C"
  have "eval_scalar_poly_loop C x (c # cs) (r, pw) mod ?p =
        ((r + (c * pw) mod ?p) mod ?p + ((pw * x) mod ?p) * peval cs x) mod ?p"
    by (simp add: Cons.IH)
  also have "\<dots> = ((r + c * pw) + (pw * x) * peval cs x) mod ?p"
    by (intro mod_add_cong mod_mult_cong refl) (simp_all add: mod_add_right_eq)
  also have "(r + c * pw) + (pw * x) * peval cs x = r + pw * peval (c # cs) x"
    by (simp add: algebra_simps)
  finally show ?case .
qed

lemma eval_scalar_poly_peval:
  "eval_scalar_poly C cs (Scalar C i) mod ORDER C = peval cs i mod ORDER C"
proof -
  let ?p = "ORDER C"
  have "eval_scalar_poly C cs (Scalar C i) mod ?p =
        (0 mod ?p + (1 mod ?p) * peval cs (i mod ?p)) mod ?p"
    by (simp only: eval_scalar_poly_def Scalar_def eval_scalar_poly_loop_peval)
  also have "\<dots> = (0 + 1 * peval cs (i mod ?p)) mod ?p"
    by (intro mod_add_cong mod_mult_cong refl) simp_all
  also have "\<dots> = peval cs (i mod ?p) mod ?p" by simp
  also have "\<dots> = peval cs i mod ?p" by (rule peval_mod_cong)
  finally show ?thesis .
qed

lemma share_value_peval:
  "share_value C coeffs tweak g i mod ORDER C = (g * peval coeffs i + tweak) mod ORDER C"
proof -
  let ?p = "ORDER C"
  let ?f = "eval_scalar_poly C coeffs (Scalar C i)"
  have "share_value C coeffs tweak g i mod ?p = ((g * ?f) mod ?p + tweak) mod ?p"
    by (simp add: share_value_def)
  also have "\<dots> = (g * peval coeffs i + tweak) mod ?p"
    by (intro mod_add_cong mod_mult_cong refl eval_scalar_poly_peval)
       (simp, intro mod_mult_cong refl eval_scalar_poly_peval)
  finally show ?thesis .
qed

lemma share_poly_deg:
  assumes "coeffs \<noteq> []"
  shows "poly_deg_lt (length coeffs) (\<lambda>x. g * peval coeffs x + tweak)"
proof -
  have a: "poly_deg_lt (length coeffs) (\<lambda>x. g * peval coeffs x)"
    by (rule poly_deg_lt_scale, rule poly_deg_lt_peval) simp
  from assms obtain m where m: "length coeffs = Suc m" by (cases coeffs) auto
  have "poly_deg_lt (Suc m) (\<lambda>x. tweak)" by (rule poly_deg_lt_const)
  with m have "poly_deg_lt (length coeffs) (\<lambda>x. tweak)" by simp
  with a show ?thesis by (rule poly_deg_lt_add)
qed

lemma sum_list_mod_cong:
  "(\<forall>i\<in>set xs. f i mod p = g i mod (p::int)) \<Longrightarrow>
   sum_list (map f xs) mod p = sum_list (map g xs) mod p"
proof (induction xs)
  case Nil
  show ?case by simp
next
  case (Cons a xs)
  then have a: "f a mod p = g a mod p" and
    r: "sum_list (map f xs) mod p = sum_list (map g xs) mod p" by simp_all
  have "(f a + sum_list (map f xs)) mod p = (f a mod p + sum_list (map f xs) mod p) mod p"
    by (rule mod_add_eq [symmetric])
  also have "\<dots> = (g a mod p + sum_list (map g xs) mod p) mod p" by (simp only: a r)
  also have "\<dots> = (g a + sum_list (map g xs)) mod p" by (rule mod_add_eq)
  finally show ?case by simp
qed

lemma interpolate_loop_mul:
  assumes ok: "curve_ok C"
  shows "(\<forall>i\<in>set rest. lagrange_at_zero C ids i = Inr (lam i)) \<Longrightarrow>
     interpolate_loop C ids (map (\<lambda>i. (i, ge_mul C (s i) (GEN C))) rest) (ge_mul C acc (GEN C)) =
       Inr (ge_mul C (acc + (\<Sum>i\<leftarrow>rest. lam i * s i)) (GEN C))"
proof (induction rest arbitrary: acc)
  case Nil
  show ?case by simp
next
  case (Cons i rest)
  from Cons.prems have l: "lagrange_at_zero C ids i = Inr (lam i)" and
    r: "\<forall>i\<in>set rest. lagrange_at_zero C ids i = Inr (lam i)" by simp_all
  have step: "ge_add C (ge_mul C acc (GEN C)) (ge_mul C (lam i) (ge_mul C (s i) (GEN C))) =
              ge_mul C (acc + lam i * s i) (GEN C)"
    by (simp only: ge_mul_mul [OF ok] ge_add_mul [OF ok])
  have "interpolate_loop C ids (map (\<lambda>i. (i, ge_mul C (s i) (GEN C))) (i # rest))
          (ge_mul C acc (GEN C)) =
        interpolate_loop C ids (map (\<lambda>i. (i, ge_mul C (s i) (GEN C))) rest)
          (ge_mul C (acc + lam i * s i) (GEN C))"
    by (simp add: l step)
  also have "\<dots> = Inr (ge_mul C ((acc + lam i * s i) + (\<Sum>i\<leftarrow>rest. lam i * s i)) (GEN C))"
    by (rule Cons.IH [OF r])
  finally show ?case by (simp add: add.assoc)
qed

lemma distinct_mod_lag_den:
  assumes pr: "prime_order p" and ds: "distinct (map (\<lambda>i. i mod p) ids)" and i: "i \<in> set ids"
  shows "\<not> p dvd lag_den ids i"
proof -
  from ds have inj: "inj_on (\<lambda>i. i mod p) (set ids)" by (simp add: distinct_map)
  have "\<not> (\<exists>j\<in>set ids. j \<noteq> i \<and> j mod p = i mod p)"
  proof
    assume "\<exists>j\<in>set ids. j \<noteq> i \<and> j mod p = i mod p"
    then obtain j where "j \<in> set ids" "j \<noteq> i" "j mod p = i mod p" by blast
    with inj i show False by (auto dest: inj_onD)
  qed
  then show ?thesis by (simp add: lag_den_dvd_iff [OF pr])
qed

text \<open>
  The interpolation at zero of the shares of a polynomial of degree below the number of
  ids, through the public shares, is the constant term times the generator.
\<close>

lemma reconstruct_from_shares:
  assumes ok: "curve_ok C"
    and cs: "coeffs = a0 # rest" and len: "length coeffs \<le> length ids"
    and ds: "distinct (map (\<lambda>i. i mod ORDER C) ids)"
  shows "interpolate_loop C ids
           (map (\<lambda>i. (i, ge_mul C (share_value C coeffs tweak g i) (GEN C))) ids) (GE_inf C) =
         Inr (ge_mul C (g * a0 + tweak) (GEN C))"
proof -
  let ?p = "ORDER C"
  let ?h = "\<lambda>x. g * peval coeffs x + tweak"
  let ?s = "share_value C coeffs tweak g"
  from ok have pr: "prime_order ?p" by (rule curve_okD(1))
  from ds have di: "distinct ids" by (rule distinct_mod_imp_distinct)
  have "\<forall>i\<in>set ids. \<exists>u. (u * lag_den ids i) mod ?p = 1 \<and>
          lagrange_at_zero C ids i = Inr ((lag_num ids i * u) mod ?p)"
  proof
    fix i assume i: "i \<in> set ids"
    from distinct_mod_lag_den [OF pr ds i] have "\<not> ?p dvd lag_den ids i" .
    from lagrange_at_zero_Inr [OF ok i di this]
    show "\<exists>u. (u * lag_den ids i) mod ?p = 1 \<and>
          lagrange_at_zero C ids i = Inr ((lag_num ids i * u) mod ?p)" .
  qed
  from bchoice [OF this] obtain u where
    u: "\<forall>i\<in>set ids. (u i * lag_den ids i) mod ?p = 1 \<and>
          lagrange_at_zero C ids i = Inr ((lag_num ids i * u i) mod ?p)"
    by blast
  let ?lam = "\<lambda>i. (lag_num ids i * u i) mod ?p"
  from u have lam: "\<forall>i\<in>set ids. lagrange_at_zero C ids i = Inr (?lam i)" by blast
  from u have inv: "\<forall>i\<in>set ids. (u i * lag_den ids i) mod ?p = 1" by blast
  from cs have "coeffs \<noteq> []" by simp
  then have "poly_deg_lt (length coeffs) ?h" by (rule share_poly_deg)
  then have dg: "poly_deg_lt (length ids) ?h" using len by (rule poly_deg_lt_mono)
  have "\<forall>i\<in>set ids. (?lam i * ?s i) mod ?p = (?h i * u i * lag_num ids i) mod ?p"
  proof
    fix i assume "i \<in> set ids"
    have "(?lam i * ?s i) mod ?p = ((lag_num ids i * u i) * ?h i) mod ?p"
      by (intro mod_mult_cong) (simp_all add: share_value_peval)
    also have "(lag_num ids i * u i) * ?h i = ?h i * u i * lag_num ids i"
      by (simp add: ac_simps)
    finally show "(?lam i * ?s i) mod ?p = (?h i * u i * lag_num ids i) mod ?p" .
  qed
  then have "(\<Sum>i\<leftarrow>ids. ?lam i * ?s i) mod ?p = (\<Sum>i\<leftarrow>ids. ?h i * u i * lag_num ids i) mod ?p"
    by (rule sum_list_mod_cong)
  also have "\<dots> = ?h 0 mod ?p" by (rule lagrange_interpolation [OF pr ds dg inv])
  also have "?h 0 = g * a0 + tweak" by (simp add: cs)
  finally have sum: "(0 + (\<Sum>i\<leftarrow>ids. ?lam i * ?s i)) mod ?p = (g * a0 + tweak) mod ?p" by simp
  have "interpolate_loop C ids (map (\<lambda>i. (i, ge_mul C (?s i) (GEN C))) ids) (ge_mul C 0 (GEN C)) =
        Inr (ge_mul C (0 + (\<Sum>i\<leftarrow>ids. ?lam i * ?s i)) (GEN C))"
    by (rule interpolate_loop_mul [OF ok lam])
  also have "ge_mul C (0 + (\<Sum>i\<leftarrow>ids. ?lam i * ?s i)) (GEN C) = ge_mul C (g * a0 + tweak) (GEN C)"
    by (rule ge_mul_cong [OF ok sum])
  finally show ?thesis by (simp only: ge_inf_eq [OF ok])
qed

lemma zip_map_self: "zip xs (map f xs) = map (\<lambda>x. (x, f x)) xs"
  by (induction xs) simp_all

lemma small_ids_distinct_mod:
  assumes "distinct ids" "set ids \<subseteq> {1..n}" "n < p"
  shows "distinct (map (\<lambda>i. i mod p) (ids :: int list))"
proof -
  have "map (\<lambda>i. i mod p) ids = map (\<lambda>i. i) ids"
  proof (rule map_cong [OF refl])
    fix i assume "i \<in> set ids"
    with assms have "0 \<le> i" "i < p" by auto
    then show "i mod p = i" by simp
  qed
  with assms(1) show ?thesis by simp
qed

text \<open>The reconstruction from the public shares of a returning run, over a quorum.\<close>

lemma group_pub_of_run:
  assumes ok: "curve_ok C"
    and run: "trusted_dealer_key_generation C t n rs = Some (Inr (vss, ss, ps), rs')"
    and nlt: "n < ORDER C"
    and di: "distinct ids" and sub: "set ids \<subseteq> {1..n}" and len: "nat t \<le> length ids"
  shows "\<exists>A0 rest Q. vss = A0 # rest \<and> tweaked_key C A0 = Inr Q \<and> Q \<noteq> GE_inf C \<and>
           group_pubkey_from_commitment C vss = Inr Q \<and>
           group_pub_from_tweaked_pubshares C ids (map (\<lambda>i. ps ! nat (i - 1)) ids) = Inr Q"
proof -
  from run obtain coeffs P tweak g where
    k: "1 \<le> t" "length coeffs = nat t"
       "vss = map (\<lambda>a. ge_mul C a (GEN C)) coeffs"
       "vss = P # tl vss" "P \<noteq> GE_inf C"
       "taproot_tweak_and_sign C P = Inr (tweak, g)"
       "ge_add C (ge_mul C g P) (ge_mul C tweak (GEN C)) \<noteq> GE_inf C"
       "ps = map (\<lambda>i. ge_mul C (share_value C coeffs tweak g i) (GEN C)) [1..n]"
    by (rule keygen_run)
  let ?Q = "ge_add C (ge_mul C g P) (ge_mul C tweak (GEN C))"
  let ?s = "share_value C coeffs tweak g"
  from k(3,4) obtain a0 cs where cs: "coeffs = a0 # cs" by (cases coeffs) auto
  with k(3,4) have P: "P = ge_mul C a0 (GEN C)" by simp
  have Q: "?Q = ge_mul C (g * a0 + tweak) (GEN C)"
    unfolding P by (simp only: ge_mul_mul [OF ok] ge_add_mul [OF ok])
  have tk: "tweaked_key C P = Inr ?Q" using k(6) by (simp add: tweaked_key_def)
  have gpk: "group_pubkey_from_commitment C vss = Inr ?Q"
    by (subst k(4)) (simp add: group_pubkey_from_commitment_def infinity_def k(5,6,7))
  have pairs: "zip ids (map (\<lambda>i. ps ! nat (i - 1)) ids) =
               map (\<lambda>i. (i, ge_mul C (?s i) (GEN C))) ids"
    unfolding zip_map_self
  proof (rule map_cong [OF refl])
    fix i assume "i \<in> set ids"
    with sub have i: "1 \<le> i" "i \<le> n" by auto
    then have "nat (i - 1) < length [1..n]" "[1..n] ! nat (i - 1) = i"
      by (simp_all add: upto_nth_id)
    then have "ps ! nat (i - 1) = ge_mul C (?s i) (GEN C)"
      unfolding k(8) by (simp only: nth_map)
    then show "(i, ps ! nat (i - 1)) = (i, ge_mul C (?s i) (GEN C))" by simp
  qed
  from di sub nlt have ds: "distinct (map (\<lambda>i. i mod ORDER C) ids)"
    by (rule small_ids_distinct_mod)
  from len k(2) have l: "length coeffs \<le> length ids" by simp
  from reconstruct_from_shares [OF ok cs l ds, of tweak g]
  have il: "interpolate_loop C ids (map (\<lambda>i. (i, ge_mul C (?s i) (GEN C))) ids) (GE_inf C) = Inr ?Q"
    by (simp only: Q)
  from k(1) len have "ids \<noteq> []" by auto
  with di k(7) have "group_pub_from_tweaked_pubshares C ids (map (\<lambda>i. ps ! nat (i - 1)) ids) = Inr ?Q"
    by (simp add: group_pub_from_tweaked_pubshares_def pairs il infinity_def)
  with tk gpk k(4,7) show ?thesis by blast
qed

lemma interpolate_loop_Inr:
  assumes ok: "curve_ok C" and di: "distinct ids"
  shows "(\<forall>pr\<in>set prs. fst pr \<in> set ids \<and> \<not> ORDER C dvd lag_den ids (fst pr)) \<Longrightarrow>
     \<exists>Q'. interpolate_loop C ids prs Q = Inr Q' \<and>
          foldl (\<lambda>acc (id_i, P_i).
                   case (acc, lagrange_product C ids id_i) of
                     (Some Q, Some lam_i) \<Rightarrow> Some (ge_add C Q (ge_mul C lam_i P_i))
                   | _ \<Rightarrow> None) (Some Q) prs = Some Q'"
proof (induction prs arbitrary: Q)
  case Nil
  show ?case by simp
next
  case (Cons pr prs)
  obtain i P where pr: "pr = (i, P)" by (cases pr)
  from ok have prm: "prime_order (ORDER C)" by (rule curve_okD(1))
  from Cons.prems pr have i: "i \<in> set ids" "\<not> ORDER C dvd lag_den ids i" by simp_all
  from i(2) have "\<not> (\<exists>j\<in>set ids. j \<noteq> i \<and> j mod ORDER C = i mod ORDER C)"
    by (simp add: lag_den_dvd_iff [OF prm])
  from lagrange_at_zero_product [OF ok i(1) di this] obtain lam where
    lam: "lagrange_product C ids i = Some lam" "lagrange_at_zero C ids i = Inr lam" by blast
  from Cons.prems have "\<forall>pr\<in>set prs. fst pr \<in> set ids \<and> \<not> ORDER C dvd lag_den ids (fst pr)"
    by simp
  from Cons.IH [OF this, of "ge_add C Q (ge_mul C lam P)"] lam pr show ?case by simp
qed

lemma interpolate_loop_ZeroDivisor:
  assumes ok: "curve_ok C" and di: "distinct ids"
  shows "(\<forall>pr\<in>set prs. fst pr \<in> set ids) \<Longrightarrow>
         (\<exists>pr\<in>set prs. ORDER C dvd lag_den ids (fst pr)) \<Longrightarrow>
         interpolate_loop C ids prs Q = Inl ZeroDivisor"
proof (induction prs arbitrary: Q)
  case Nil
  then show ?case by simp
next
  case (Cons pr prs)
  obtain i P where pr: "pr = (i, P)" by (cases pr)
  from ok have prm: "prime_order (ORDER C)" by (rule curve_okD(1))
  from Cons.prems pr have i: "i \<in> set ids" by simp
  show ?case
  proof (cases "ORDER C dvd lag_den ids i")
    case True
    from lagrange_at_zero_ZeroDivisor [OF ok i di True] pr show ?thesis by simp
  next
    case False
    then have "\<not> (\<exists>j\<in>set ids. j \<noteq> i \<and> j mod ORDER C = i mod ORDER C)"
      by (simp add: lag_den_dvd_iff [OF prm])
    from lagrange_at_zero_product [OF ok i di this] obtain lam where
      lam: "lagrange_at_zero C ids i = Inr lam" by blast
    from Cons.prems False pr have
      "\<forall>pr\<in>set prs. fst pr \<in> set ids" "\<exists>pr\<in>set prs. ORDER C dvd lag_den ids (fst pr)"
      by auto
    from Cons.IH [OF this, of "ge_add C Q (ge_mul C lam P)"] lam pr show ?thesis by simp
  qed
qed

lemma not_distinct_mod_lag_den:
  assumes pr: "prime_order p" and di: "distinct ids"
    and nd: "\<not> distinct (map (\<lambda>i. i mod p) ids)"
  shows "\<exists>i\<in>set ids. p dvd lag_den ids i"
proof -
  from di nd have "\<not> inj_on (\<lambda>i. i mod p) (set ids)" by (simp add: distinct_map)
  then obtain a b where ab: "a \<in> set ids" "b \<in> set ids" "a mod p = b mod p" "a \<noteq> b"
    unfolding inj_on_def by blast
  then have "\<exists>j\<in>set ids. j \<noteq> b \<and> j mod p = b mod p" by blast
  then have "p dvd lag_den ids b" by (simp only: lag_den_dvd_iff [OF pr])
  with ab(2) show ?thesis by blast
qed

lemma remdups_length_iff: "length (remdups xs) = length xs \<longleftrightarrow> distinct xs"
  by (simp add: length_remdups_eq)

lemma group_pub_eq:
  assumes ok: "curve_ok C"
  shows "group_pub_from_tweaked_pubshares C ids pubshares =
     (if length ids \<noteq> length pubshares \<or> ids = [] \<or> \<not> distinct ids then Inl InconsistentInput
      else if \<not> distinct (map (\<lambda>i. i mod ORDER C) ids) then Inl ZeroDivisor
      else (case interpolated_sum C ids pubshares of
              None \<Rightarrow> Inl InconsistentInput
            | Some Q \<Rightarrow> if Q = GE_inf C then Inl InconsistentInput else Inr Q))"
proof (cases "length ids \<noteq> length pubshares \<or> ids = [] \<or> \<not> distinct ids")
  case True
  show ?thesis
  proof (cases "length ids \<noteq> length pubshares \<or> ids = []")
    case True
    then show ?thesis by (auto simp: group_pub_from_tweaked_pubshares_def)
  next
    case False
    with True have "\<not> distinct ids" by simp
    then have r: "length (remdups ids) \<noteq> length ids" by (simp add: remdups_length_iff)
    from False r True show ?thesis by (simp add: group_pub_from_tweaked_pubshares_def)
  qed
next
  case False
  then have l: "length ids = length pubshares" and ne: "ids \<noteq> []" and di: "distinct ids"
    by simp_all
  from ok have prm: "prime_order (ORDER C)" by (rule curve_okD(1))
  let ?prs = "zip ids pubshares"
  from l have fst: "fst ` set ?prs = set ids" by (metis map_fst_zip set_map)
  then have mem: "\<forall>pr\<in>set ?prs. fst pr \<in> set ids" by auto
  have unfold: "group_pub_from_tweaked_pubshares C ids pubshares =
        (case interpolate_loop C ids ?prs (GE_inf C) of
           Inl e \<Rightarrow> Inl e
         | Inr Q \<Rightarrow> if Q = GE_inf C then Inl InconsistentInput else Inr Q)"
    using l ne di
    by (simp add: group_pub_from_tweaked_pubshares_def infinity_def distinct_remdups_id
          split: sum.splits)
  show ?thesis
  proof (cases "distinct (map (\<lambda>i. i mod ORDER C) ids)")
    case True
    have "\<forall>pr\<in>set ?prs. fst pr \<in> set ids \<and> \<not> ORDER C dvd lag_den ids (fst pr)"
      using mem distinct_mod_lag_den [OF prm True] by blast
    from interpolate_loop_Inr [OF ok di this, of "GE_inf C"] obtain Q' where
      "interpolate_loop C ids ?prs (GE_inf C) = Inr Q'"
      "interpolated_sum C ids pubshares = Some Q'"
      unfolding interpolated_sum_def by blast
    with False True unfold show ?thesis by simp
  next
    case nd: False
    from not_distinct_mod_lag_den [OF prm di nd] obtain i where
      i: "i \<in> set ids" "ORDER C dvd lag_den ids i" by blast
    from i(1) fst obtain pr where "pr \<in> set ?prs" "fst pr = i" by (metis imageE)
    with i(2) have "\<exists>pr\<in>set ?prs. ORDER C dvd lag_den ids (fst pr)" by blast
    from interpolate_loop_ZeroDivisor [OF ok di mem this]
    have "interpolate_loop C ids ?prs (GE_inf C) = Inl ZeroDivisor" .
    with False nd unfold show ?thesis by simp
  qed
qed

text \<open>
  Claim C2. In every run that returns, with \<open>n\<close> below the order of the group (as in every
  run that can be carried out: the order is about \<open>2\<^sup>2\<^sup>5\<^sup>6\<close>),
  \<^verbatim>\<open>group_pubkey_from_commitment\<close> of the commitments returns the group key
  \<open>Q = g\<cdot>A\<^sub>0 + tweak\<cdot>G\<close> of the run, and so does \<^verbatim>\<open>group_pub_from_tweaked_pubshares\<close> on
  every list of at least \<open>t\<close> distinct participant ids with their public shares; two such
  lists therefore reconstruct the same \<open>Q\<close>.
\<close>

theorem group_key_consistency:
  assumes ok: "curve_ok C"
    and run: "trusted_dealer_key_generation C t n rs = Some (Inr (vss, ss, ps), rs')"
    and nlt: "n < ORDER C"
    and ids: "distinct ids" "set ids \<subseteq> {1..n}" "nat t \<le> length ids"
    and ids': "distinct ids'" "set ids' \<subseteq> {1..n}" "nat t \<le> length ids'"
  shows "\<exists>A0 rest Q. vss = A0 # rest \<and> tweaked_key C A0 = Inr Q \<and> Q \<noteq> GE_inf C \<and>
           group_pubkey_from_commitment C vss = Inr Q \<and>
           group_pub_from_tweaked_pubshares C ids (map (\<lambda>i. ps ! nat (i - 1)) ids) = Inr Q \<and>
           group_pub_from_tweaked_pubshares C ids' (map (\<lambda>i. ps ! nat (i - 1)) ids') = Inr Q"
proof -
  from group_pub_of_run [OF ok run nlt ids] obtain A0 rest Q where
    a: "vss = A0 # rest" "tweaked_key C A0 = Inr Q" "Q \<noteq> GE_inf C"
       "group_pubkey_from_commitment C vss = Inr Q"
       "group_pub_from_tweaked_pubshares C ids (map (\<lambda>i. ps ! nat (i - 1)) ids) = Inr Q"
    by blast
  from group_pub_of_run [OF ok run nlt ids'] a(4)
  have "group_pub_from_tweaked_pubshares C ids' (map (\<lambda>i. ps ! nat (i - 1)) ids') = Inr Q"
    by auto
  with a show ?thesis by blast
qed

lemma toy_gpk: "group_pubkey_from_commitment toy [5, 3] = Inr 4"
  by (simp add: toy_fields group_pubkey_from_commitment_def infinity_def
        taproot_tweak_and_sign_def bit1.Rep_numeral from_bytes_wrapping_def int_from_bytes_def
        toy_neg3)

theorem group_key_consistency_witness:
  "curve_ok toy \<and> group_pubkey_from_commitment toy [5, 3] = Inr 4 \<and>
   group_pub_from_tweaked_pubshares toy [3, 1] [2, 1] = Inr 4 \<and>
   group_pub_from_tweaked_pubshares toy [1, 2, 3] [1, 5, 2] = Inr 4"
  using group_key_consistency [OF toy_ok toy_run, of "[3, 1]" "[1, 2, 3]"]
  by (auto simp: toy_ok toy_gpk toy_fields)

text \<open>
  Claim C9, amended. \<^verbatim>\<open>group_pub_from_tweaked_pubshares\<close> fails exactly when the two lists
  have different lengths, the input is empty, the ids contain duplicates, two ids are
  congruent modulo the order (a Lagrange denominator is then zero and the inverse raises
  \<open>ZeroDivisor\<close>), or the interpolated sum is the point at infinity. It never returns the
  point at infinity, and what it returns is the interpolated sum. For the shares of a run
  with \<open>t = 2\<close> and \<open>n = 3\<close> (on a curve of order above 3) the calls with the ids \<open>[1, 2]\<close>
  and \<open>[2, 3]\<close> return the same \<open>Q\<close> as \<^verbatim>\<open>group_pubkey_from_commitment\<close>.
\<close>

theorem group_pub_from_tweaked_pubshares_spec:
  assumes ok: "curve_ok C"
  shows "(isl (group_pub_from_tweaked_pubshares C ids pubshares) \<longleftrightarrow>
            length ids \<noteq> length pubshares \<or> ids = [] \<or> \<not> distinct ids \<or>
            \<not> distinct (map (\<lambda>i. i mod ORDER C) ids) \<or>
            interpolated_sum C ids pubshares = Some (GE_inf C)) \<and>
         group_pub_from_tweaked_pubshares C ids pubshares \<noteq> Inr (GE_inf C) \<and>
         (\<forall>Q. group_pub_from_tweaked_pubshares C ids pubshares = Inr Q \<longrightarrow>
              interpolated_sum C ids pubshares = Some Q) \<and>
         (trusted_dealer_key_generation C 2 3 rs = Some (Inr (vss, ss, ps), rs') \<and> 3 < ORDER C
            \<longrightarrow> (\<exists>Q. group_pubkey_from_commitment C vss = Inr Q \<and>
                    group_pub_from_tweaked_pubshares C [1, 2] [ps ! 0, ps ! 1] = Inr Q \<and>
                    group_pub_from_tweaked_pubshares C [2, 3] [ps ! 1, ps ! 2] = Inr Q))"
proof -
  note eq = group_pub_eq [OF ok, of ids pubshares]
  have c1: "isl (group_pub_from_tweaked_pubshares C ids pubshares) \<longleftrightarrow>
            length ids \<noteq> length pubshares \<or> ids = [] \<or> \<not> distinct ids \<or>
            \<not> distinct (map (\<lambda>i. i mod ORDER C) ids) \<or>
            interpolated_sum C ids pubshares = Some (GE_inf C)"
  proof (cases "length ids \<noteq> length pubshares \<or> ids = [] \<or> \<not> distinct ids \<or>
            \<not> distinct (map (\<lambda>i. i mod ORDER C) ids)")
    case True
    then show ?thesis unfolding eq by auto
  next
    case False
    from ok have prm: "prime_order (ORDER C)" by (rule curve_okD(1))
    from False have l: "length ids = length pubshares" and di: "distinct ids"
      and ds: "distinct (map (\<lambda>i. i mod ORDER C) ids)" by simp_all
    from l have "fst ` set (zip ids pubshares) = set ids" by (metis map_fst_zip set_map)
    then have "\<forall>pr\<in>set (zip ids pubshares).
        fst pr \<in> set ids \<and> \<not> ORDER C dvd lag_den ids (fst pr)"
      using distinct_mod_lag_den [OF prm ds] by blast
    from interpolate_loop_Inr [OF ok di this, of "GE_inf C"] obtain Q' where
      "interpolated_sum C ids pubshares = Some Q'"
      unfolding interpolated_sum_def by blast
    with False show ?thesis unfolding eq by simp
  qed
  have c2: "group_pub_from_tweaked_pubshares C ids pubshares \<noteq> Inr (GE_inf C)"
    unfolding eq by (simp split: option.splits)
  have c3: "\<forall>Q. group_pub_from_tweaked_pubshares C ids pubshares = Inr Q \<longrightarrow>
              interpolated_sum C ids pubshares = Some Q"
    unfolding eq by (simp split: option.splits if_splits)
  have c4: "trusted_dealer_key_generation C 2 3 rs = Some (Inr (vss, ss, ps), rs') \<and> 3 < ORDER C
            \<longrightarrow> (\<exists>Q. group_pubkey_from_commitment C vss = Inr Q \<and>
                    group_pub_from_tweaked_pubshares C [1, 2] [ps ! 0, ps ! 1] = Inr Q \<and>
                    group_pub_from_tweaked_pubshares C [2, 3] [ps ! 1, ps ! 2] = Inr Q)"
  proof
    assume a: "trusted_dealer_key_generation C 2 3 rs = Some (Inr (vss, ss, ps), rs') \<and> 3 < ORDER C"
    then have run: "trusted_dealer_key_generation C 2 3 rs = Some (Inr (vss, ss, ps), rs')"
      and nlt: "3 < ORDER C" by simp_all
    have q1: "distinct [1, 2 :: int]" "set [1, 2 :: int] \<subseteq> {1..3}" "nat 2 \<le> length [1, 2 :: int]"
      by simp_all
    have q2: "distinct [2, 3 :: int]" "set [2, 3 :: int] \<subseteq> {1..3}" "nat 2 \<le> length [2, 3 :: int]"
      by simp_all
    from group_pub_of_run [OF ok run nlt q1] obtain Q where
      Q: "group_pubkey_from_commitment C vss = Inr Q"
         "group_pub_from_tweaked_pubshares C [1, 2] [ps ! 0, ps ! 1] = Inr Q" by auto
    from group_pub_of_run [OF ok run nlt q2] Q(1)
    have "group_pub_from_tweaked_pubshares C [2, 3] [ps ! 1, ps ! 2] = Inr Q" by auto
    with Q show "\<exists>Q. group_pubkey_from_commitment C vss = Inr Q \<and>
                    group_pub_from_tweaked_pubshares C [1, 2] [ps ! 0, ps ! 1] = Inr Q \<and>
                    group_pub_from_tweaked_pubshares C [2, 3] [ps ! 1, ps ! 2] = Inr Q" by blast
  qed
  from c1 c2 c3 c4 show ?thesis by (intro conjI)
qed

theorem group_pub_from_tweaked_pubshares_spec_witness:
  "curve_ok toy \<and> (3::int) < ORDER toy \<and>
   group_pubkey_from_commitment toy [5, 3] = Inr 4 \<and>
   group_pub_from_tweaked_pubshares toy [1, 2] [1, 5] = Inr 4 \<and>
   group_pub_from_tweaked_pubshares toy [2, 3] [5, 2] = Inr 4 \<and>
   interpolated_sum toy [1, 2] [1, 5] = Some 4 \<and>
   isl (group_pub_from_tweaked_pubshares toy [1, 1] [1, 5]) \<and>
   isl (group_pub_from_tweaked_pubshares toy [1] [1, 5]) \<and>
   isl (group_pub_from_tweaked_pubshares toy [] [])"
  using group_pub_from_tweaked_pubshares_spec
      [OF toy_ok, of "[1, 2]" "[1, 5]" "0 ## 7 ## 5 ## 3 ## sconst 3" "[5, 3]" "[1, 5, 2]" "[1, 5, 2]" "sconst 3"]
    group_pub_from_tweaked_pubshares_spec [OF toy_ok, of "[1, 1]" "[1, 5]"]
    group_pub_from_tweaked_pubshares_spec [OF toy_ok, of "[1]" "[1, 5]"]
    group_pub_from_tweaked_pubshares_spec [OF toy_ok, of "[]" "[]"]
  by (auto simp: toy_ok toy_gpk toy_run toy_fields)

lemma toy_group_pub_18: "group_pub_from_tweaked_pubshares toy [1, 8] [3, 5] = Inl ZeroDivisor"
  by (simp add: group_pub_from_tweaked_pubshares_def toy_lagrange_eval)

lemma toy_interpolated_sum_18: "interpolated_sum toy [1, 8] [3, 5] = None"
  by (simp add: interpolated_sum_def lagrange_product_def scalar_div_def toy_fields pow_inv_def
        egcd.simps)

text \<open>
  The claim as stated fails: the lists \<open>[1, 8]\<close> and \<open>[3, 5]\<close> have the same length, are not
  empty, the ids are distinct, and no interpolated sum is the point at infinity (the
  coefficients have no value), yet the call fails, with \<open>ZeroDivisor\<close>: the ids are
  congruent modulo the order \<open>7\<close> of the toy curve, as \<open>1\<close> and \<open>n + 1\<close> are on the real one.
\<close>

theorem group_pub_congruent_ids_counterexample:
  "curve_ok toy \<and> length [1, 8 :: int] = length [3, 5 :: 7] \<and> [1, 8 :: int] \<noteq> [] \<and>
   distinct [1, 8 :: int] \<and> interpolated_sum toy [1, 8] [3, 5] \<noteq> Some (GE_inf toy) \<and>
   group_pub_from_tweaked_pubshares toy [1, 8] [3, 5] = Inl ZeroDivisor"
  by (simp add: toy_ok toy_group_pub_18 toy_interpolated_sum_18)

end
